theory Spec2Isabelle
  imports Complex_Main "HOL-Library.Sublist"
begin

section \<open>awx/main/tasks/callback.py: the event handler of RunnerCallback\<close>

text \<open>
  The part of \<open>RunnerCallback.event_handler\<close> that decides whether an event goes to the
  live websocket channel (lines 150-151 and 193-229 of callback.py). The enrichment of the
  event between these lines (job linkage, host map, redaction, guid) writes keys that the
  throttle never reads and is left out, as is the staging of artifact data after the
  dispatch. Timestamps (\<open>time.time()\<close>) are real numbers: the arithmetic of the model is
  exact, that of the source is binary floating point.

  \<open>MINIMAL_EVENTS\<close> lives in awx/main/constants.py and is a parameter of the model.
\<close>

datatype py_error =
  KeyError string | TypeError | AttributeError | ValueError | RuntimeError string | Other_exception

text \<open>The keys of \<open>event_data\<close> that the throttle reads; \<open>None\<close> is a missing key.\<close>

record event_data =
  event :: "string option"
  stdout :: "string option"
  start_line :: "int option"
  end_line :: "int option"

text \<open>
  What \<open>self.dispatcher.dispatch\<close> received: the event type, whether the key
  \<open>skip_websocket_message\<close> was set, and (for the statements about time windows) the
  clock reading under which the handler processed the event.
\<close>

record dispatched_event =
  d_event :: "string option"
  skip_websocket_message :: bool
  handled_at :: real

record runner_callback =
  recent_event_timings :: "real list"
  maxlen :: nat
  dispatched :: "dispatched_event list"
  event_ct :: nat

text \<open>\<open>RunnerCallback.__init__\<close>, with \<open>settings.MAX_WEBSOCKET_EVENT_RATE\<close> as argument.\<close>

definition new_callback :: "nat \<Rightarrow> runner_callback" where
  "new_callback max_websocket_event_rate =
     \<lparr>recent_event_timings = [], maxlen = max_websocket_event_rate, dispatched = [], event_ct = 0\<rparr>"

text \<open>\<open>collections.deque.append\<close> on a deque bounded by \<open>n\<close>, oldest element first.\<close>

definition deque_append :: "nat \<Rightarrow> 'a list \<Rightarrow> 'a \<Rightarrow> 'a list" where
  "deque_append n xs x =
     (if n = 0 then xs
      else (let ys = xs @ [x] in if length ys > n then tl ys else ys))"

text \<open>\<open>event_data.get('event') in MINIMAL_EVENTS\<close>\<close>

definition in_minimal_events :: "string set \<Rightarrow> string option \<Rightarrow> bool" where
  "in_minimal_events minimal e = (case e of None \<Rightarrow> False | Some name \<Rightarrow> name \<in> minimal)"

text \<open>
  \<open>event_data.get('stdout') == '' and event_data['start_line'] == event_data['end_line']\<close>:
  the subscripts are evaluated only when stdout is the empty string, and raise KeyError
  on a missing key.
\<close>

definition no_output :: "event_data \<Rightarrow> py_error + bool" where
  "no_output ev =
     (if stdout ev = Some [] then
        (case start_line ev of
           None \<Rightarrow> Inl (KeyError ''start_line'')
         | Some s \<Rightarrow>
             (case end_line ev of
                None \<Rightarrow> Inl (KeyError ''end_line'')
              | Some e \<Rightarrow> Inr (s = e)))
      else Inr False)"

text \<open>The three-way \<open>any([...])\<close> of lines 204-213.\<close>

definition rate_allows :: "nat \<Rightarrow> real list \<Rightarrow> real \<Rightarrow> real \<Rightarrow> real \<Rightarrow> bool" where
  "rate_allows n timings cpu_time first_window_time last_window_time =
     (cpu_time - first_window_time > 1
      \<or> real n * (cpu_time - last_window_time) > 1
      \<or> length timings \<noteq> n)"

text \<open>Lines 199-213, for a deque whose first and last elements are given.\<close>

definition should_emit ::
  "string set \<Rightarrow> nat \<Rightarrow> real list \<Rightarrow> real \<Rightarrow> real \<Rightarrow> real \<Rightarrow> event_data \<Rightarrow> py_error + bool" where
  "should_emit minimal n timings cpu_time first_window_time last_window_time ev =
     (if in_minimal_events minimal (event ev) then Inr True
      else
        (case no_output ev of
           Inl err \<Rightarrow> Inl err
         | Inr True \<Rightarrow> Inr False
         | Inr False \<Rightarrow> Inr (rate_allows n timings cpu_time first_window_time last_window_time)))"

text \<open>Lines 228-229: \<open>self.dispatcher.dispatch(event_data); self.event_ct += 1\<close>.\<close>

definition dispatch :: "event_data \<Rightarrow> bool \<Rightarrow> real \<Rightarrow> runner_callback \<Rightarrow> runner_callback" where
  "dispatch ev skip cpu_time cb =
     cb\<lparr>dispatched := dispatched cb @
            [\<lparr>d_event = event ev, skip_websocket_message = skip, handled_at = cpu_time\<rparr>],
        event_ct := event_ct cb + 1\<rparr>"

definition record_timing :: "real \<Rightarrow> runner_callback \<Rightarrow> runner_callback" where
  "record_timing cpu_time cb =
     cb\<lparr>recent_event_timings := deque_append (maxlen cb) (recent_event_timings cb) cpu_time\<rparr>"

text \<open>
  \<open>event_handler\<close>; \<open>cpu_time\<close> is the reading of \<open>time.time()\<close> during the call. A
  keepalive event returns before anything is touched. A non-empty deque goes through the
  throttle; an empty one records the time when \<open>maxlen\<close> is non-zero and never flags.
\<close>

definition event_handler ::
  "string set \<Rightarrow> real \<Rightarrow> event_data \<Rightarrow> runner_callback \<Rightarrow> py_error + runner_callback" where
  "event_handler minimal cpu_time ev cb =
     (if event ev = Some ''keepalive'' then Inr cb
      else
        (case recent_event_timings cb of
           first_window_time # rest \<Rightarrow>
             (case should_emit minimal (maxlen cb) (recent_event_timings cb) cpu_time
                     first_window_time (last (first_window_time # rest)) ev of
                Inl err \<Rightarrow> Inl err
              | Inr emit \<Rightarrow>
                  Inr (dispatch ev (\<not> emit) cpu_time
                         (if emit then record_timing cpu_time cb else cb)))
         | [] \<Rightarrow>
             Inr (dispatch ev False cpu_time
                    (if maxlen cb \<noteq> 0 then record_timing cpu_time cb else cb))))"

text \<open>The runner calls the handler once per event, in order; an exception ends the run.\<close>

fun run_events ::
  "string set \<Rightarrow> (real \<times> event_data) list \<Rightarrow> runner_callback \<Rightarrow> py_error + runner_callback" where
  "run_events minimal [] cb = Inr cb"
| "run_events minimal ((cpu_time, ev) # rest) cb =
     (case event_handler minimal cpu_time ev cb of
        Inl err \<Rightarrow> Inl err
      | Inr cb' \<Rightarrow> run_events minimal rest cb')"

text \<open>
  The events sent to the live channel (not flagged) whose type is outside the always-emit
  set and whose time lies in the closed window from \<open>s\<close> to \<open>s + 1\<close>.
\<close>

definition throttled_emission :: "string set \<Rightarrow> real \<Rightarrow> dispatched_event \<Rightarrow> bool" where
  "throttled_emission minimal s d =
     (\<not> skip_websocket_message d \<and> \<not> in_minimal_events minimal (d_event d)
      \<and> s \<le> handled_at d \<and> handled_at d \<le> s + 1)"

definition window_emissions :: "string set \<Rightarrow> real \<Rightarrow> runner_callback \<Rightarrow> nat" where
  "window_emissions minimal s cb = length (filter (throttled_emission minimal s) (dispatched cb))"

text \<open>An event with output, of a type that is throttled.\<close>

definition task_event :: event_data where
  "task_event = \<lparr>event = Some ''runner_on_ok'', stdout = Some ''ok'', start_line = Some 0, end_line = Some 1\<rparr>"

text \<open>An event without output: empty stdout, equal line markers.\<close>

definition silent_event :: event_data where
  "silent_event = \<lparr>event = Some ''runner_on_start'', stdout = Some [], start_line = Some 3, end_line = Some 3\<rparr>"

text \<open>A sample always-emit set, for the concrete runs below.\<close>

definition sample_minimal_events :: "string set" where
  "sample_minimal_events = {''playbook_on_play_start'', ''playbook_on_task_start'', ''playbook_on_stats'', ''EOF''}"

text \<open>The bound as the specification words it: at most \<open>maxlen\<close> throttled emissions in the window.\<close>

definition window_within_capacity :: "string set \<Rightarrow> real \<Rightarrow> runner_callback \<Rightarrow> bool" where
  "window_within_capacity minimal s cb = (window_emissions minimal s cb \<le> maxlen cb)"

subsection \<open>The invariant behind the window bound\<close>

text \<open>
  \<open>emitted\<close> are the dispatched events that went to the live channel, \<open>emitted_since s\<close>
  counts those handled at or after \<open>s\<close>. The invariant ties the deque to the dispatch log
  for one window starting at \<open>s\<close>: the deque is sorted and within its bound, it holds every
  emission while it is not full, its last element is the latest emission, once its head is
  older than \<open>s\<close> it holds every emission since \<open>s\<close>, and the throttled emissions in the
  window number at most \<open>maxlen\<close> plus what the rate rule can have let through since \<open>s\<close>.
\<close>

definition emitted :: "dispatched_event list \<Rightarrow> dispatched_event list" where
  "emitted ds = filter (\<lambda>d. \<not> skip_websocket_message d) ds"

definition emitted_since :: "real \<Rightarrow> dispatched_event list \<Rightarrow> nat" where
  "emitted_since s ds = length (filter (\<lambda>d. \<not> skip_websocket_message d \<and> s \<le> handled_at d) ds)"

definition throttle_inv :: "string set \<Rightarrow> real \<Rightarrow> runner_callback \<Rightarrow> bool" where
  "throttle_inv minimal s cb =
     (let buf = recent_event_timings cb; n = maxlen cb; w = window_emissions minimal s cb in
      sorted buf \<and> length buf \<le> n
      \<and> (length buf < n \<longrightarrow> length (emitted (dispatched cb)) = length buf)
      \<and> (\<forall>d \<in> set (emitted (dispatched cb)). buf \<noteq> [] \<and> handled_at d \<le> last buf)
      \<and> (buf \<noteq> [] \<and> hd buf < s \<longrightarrow>
           emitted_since s (dispatched cb) = length (filter (\<lambda>x. s \<le> x) buf))
      \<and> (w \<le> n \<or> (buf \<noteq> [] \<and> real w - real n < real n * (min (last buf) (s + 1) - s))))"


section \<open>awx/main/tasks/callback.py: deferred field updates\<close>

text \<open>
  \<open>self.extra_update_fields\<close> is a dict from field names to values. The values of the two
  merged fields are text; the other fields hold dicts, booleans and numbers, which the model
  keeps opaque. What Python does with an opaque value (\<open>str(v)\<close>, \<open>s in v\<close>, \<open>if v\<close>) is a
  parameter of the model.
\<close>

datatype 'a field_value = Text string | Opaque 'a

record 'a py_ops =
  repr :: "'a \<Rightarrow> string"
  contains :: "'a \<Rightarrow> string \<Rightarrow> py_error + bool"
  truthy :: "'a \<Rightarrow> bool"

type_synonym 'a update_fields = "string \<rightharpoonup> 'a field_value"

text \<open>\<open>str(value)\<close>\<close>

fun py_str :: "'a py_ops \<Rightarrow> 'a field_value \<Rightarrow> string" where
  "py_str ops (Text s) = s"
| "py_str ops (Opaque a) = repr ops a"

text \<open>\<open>s in container\<close>: on a string, \<open>s\<close> occurs as a contiguous substring.\<close>

fun py_in :: "'a py_ops \<Rightarrow> string \<Rightarrow> 'a field_value \<Rightarrow> py_error + bool" where
  "py_in ops s (Text t) = Inr (sublist s t)"
| "py_in ops s (Opaque a) = contains ops a s"

text \<open>\<open>if value:\<close>\<close>

fun py_truthy :: "'a py_ops \<Rightarrow> 'a field_value \<Rightarrow> bool" where
  "py_truthy ops (Text s) = (s \<noteq> [])"
| "py_truthy ops (Opaque a) = truthy ops a"

text \<open>\<open>'\n'.join([a, b])\<close>\<close>

definition join_newline :: "string \<Rightarrow> string \<Rightarrow> string" where
  "join_newline a b = a @ [CHR 0x0A] @ b"

text \<open>The body of the loop of \<open>delay_update\<close> (lines 112-120) for one keyword argument.\<close>

definition delay_update_field ::
  "'a py_ops \<Rightarrow> bool \<Rightarrow> string \<Rightarrow> 'a field_value \<Rightarrow> 'a update_fields \<Rightarrow> py_error + 'a update_fields" where
  "delay_update_field ops skip_if_already_set key val extra_update_fields =
     (case extra_update_fields key of
        Some old \<Rightarrow>
          if skip_if_already_set then Inr extra_update_fields
          else if key \<in> {''job_explanation'', ''result_traceback''} then
            (case py_in ops (py_str ops val) old of
               Inl err \<Rightarrow> Inl err
             | Inr True \<Rightarrow> Inr extra_update_fields
             | Inr False \<Rightarrow>
                 Inr (extra_update_fields(key \<mapsto> Text (join_newline (py_str ops old) (py_str ops val)))))
          else Inr (extra_update_fields(key \<mapsto> val))
      | None \<Rightarrow> Inr (extra_update_fields(key \<mapsto> val)))"

text \<open>\<open>delay_update(skip_if_already_set, **kwargs)\<close>, the keyword arguments in their order.\<close>

fun delay_update ::
  "'a py_ops \<Rightarrow> bool \<Rightarrow> (string \<times> 'a field_value) list \<Rightarrow> 'a update_fields \<Rightarrow> py_error + 'a update_fields" where
  "delay_update ops skip_if_already_set [] extra_update_fields = Inr extra_update_fields"
| "delay_update ops skip_if_already_set ((key, val) # kwargs) extra_update_fields =
     (case delay_update_field ops skip_if_already_set key val extra_update_fields of
        Inl err \<Rightarrow> Inl err
      | Inr extra' \<Rightarrow> delay_update ops skip_if_already_set kwargs extra')"

text \<open>The keys of \<open>status_data\<close> that \<open>status_handler\<close> reads; \<open>None\<close> is a missing key.\<close>

record 'a status_data =
  status :: "string option"
  sd_result_traceback :: "'a field_value option"
  sd_job_explanation :: "'a field_value option"

text \<open>
  One round of the loop of lines 272-275:
  \<open>field_value = status_data.get(field_name, None); if field_value: self.delay_update(...)\<close>.
\<close>

definition stage_status_field ::
  "'a py_ops \<Rightarrow> string \<Rightarrow> 'a field_value option \<Rightarrow> 'a update_fields \<Rightarrow> py_error + 'a update_fields" where
  "stage_status_field ops field_name field_value extra_update_fields =
     (case field_value of
        None \<Rightarrow> Inr extra_update_fields
      | Some v \<Rightarrow>
          if py_truthy ops v then delay_update ops False [(field_name, v)] extra_update_fields
          else Inr extra_update_fields)"

text \<open>
  \<open>status_handler\<close>, as far as the deferred fields go: the branch for 'starting' saves the
  job row and leaves \<open>extra_update_fields\<close> alone; the branch for 'error' stages
  \<open>result_traceback\<close>, then \<open>job_explanation\<close>.
\<close>

definition status_handler ::
  "'a py_ops \<Rightarrow> 'a status_data \<Rightarrow> 'a update_fields \<Rightarrow> py_error + 'a update_fields" where
  "status_handler ops sd extra_update_fields =
     (case status sd of
        None \<Rightarrow> Inl (KeyError ''status'')
      | Some st \<Rightarrow>
          if st = ''starting'' then Inr extra_update_fields
          else if st = ''error'' then
            (case stage_status_field ops ''result_traceback'' (sd_result_traceback sd)
                    extra_update_fields of
               Inl err \<Rightarrow> Inl err
             | Inr extra' \<Rightarrow>
                 stage_status_field ops ''job_explanation'' (sd_job_explanation sd) extra')
          else Inr extra_update_fields)"

text \<open>
  Merge-append as the specification words it: an already recorded message is not repeated,
  a new one is added after a newline; a field without a stored value takes the message.
\<close>

definition merge_append :: "string \<Rightarrow> string \<Rightarrow> string" where
  "merge_append prior message = (if sublist message prior then prior else join_newline prior message)"

definition staged_text :: "'a field_value option \<Rightarrow> string option \<Rightarrow> 'a field_value option" where
  "staged_text stored message =
     (case message of
        None \<Rightarrow> stored
      | Some m \<Rightarrow>
          if m = [] then stored
          else (case stored of
                  None \<Rightarrow> Some (Text m)
                | Some (Text prior) \<Rightarrow> Some (Text (merge_append prior m))
                | Some (Opaque a) \<Rightarrow> stored))"

text \<open>Operations on opaque values for the concrete runs: none is ever called there.\<close>

definition sample_ops :: "unit py_ops" where
  "sample_ops = \<lparr>repr = (\<lambda>_. ''()''), contains = (\<lambda>_ _. Inl TypeError), truthy = (\<lambda>_. False)\<rparr>"


section \<open>awx/main/tasks/system.py: cluster membership policies\<close>

text \<open>
  The rows of \<open>Instance\<close> and \<open>InstanceGroup\<close> that \<open>apply_cluster_membership_policies\<close>
  reads, and the many-to-many relation between them, which Django keeps in a table of its
  own: \<open>cl_membership c g\<close> is the set of instance ids related to the group with id \<open>g\<close>
  (what \<open>ig.instances.all()\<close> returns).
\<close>

datatype node_type = Control | Execution | Hybrid | Hop

record instance_row =
  inst_id :: int
  hostname :: string
  node_type :: node_type
  managed_by_policy :: bool

record instance_group =
  group_id :: int
  name :: string
  policy_instance_list :: "string list"
  policy_instance_minimum :: int
  policy_instance_percentage :: int
  is_container_group :: bool

record cluster =
  cl_instances :: "instance_row list"
  cl_groups :: "instance_group list"
  cl_membership :: "int \<Rightarrow> int set"

text \<open>\<open>list(Instance.objects.exclude(node_type='hop').order_by('id'))\<close>\<close>

definition all_instances :: "cluster \<Rightarrow> instance_row list" where
  "all_instances c = sort_key inst_id (filter (\<lambda>i. node_type i \<noteq> Hop) (cl_instances c))"

text \<open>\<open>{inst.hostname: inst for inst in all_instances}\<close>: a later instance replaces an earlier one.\<close>

definition instance_hostnames_map :: "instance_row list \<Rightarrow> string \<rightharpoonup> instance_row" where
  "instance_hostnames_map insts = map_of (rev (map (\<lambda>inst. (hostname inst, inst)) insts))"

text \<open>
  The namedtuples \<open>Group(obj, instances, prior_instances)\<close> and \<open>Node(obj, groups)\<close> pair a
  row, which is only read, with a list that grows. The model keeps the rows in the lists
  they come from (\<open>all_groups\<close>, and the policy-managed instances) and the growing lists
  in two stores indexed like them: the list \<open>instances\<close> of the group at position \<open>j\<close>
  and the list \<open>groups\<close> of the node at position \<open>i\<close>. \<open>prior_instances\<close> is read from
  \<open>cl_membership\<close>.

  Lines 212-225, for one group: the ids of the known hostnames of its policy list.
\<close>

fun policy_list_pass :: "(string \<rightharpoonup> instance_row) \<Rightarrow> string list \<Rightarrow> int list" where
  "policy_list_pass hostnames_map [] = []"
| "policy_list_pass hostnames_map (h # rest) =
     (case hostnames_map h of
        None \<Rightarrow> policy_list_pass hostnames_map rest
      | Some inst \<Rightarrow> inst_id inst # policy_list_pass hostnames_map rest)"

text \<open>
  \<open>'execution' if g.obj.name == settings.DEFAULT_CONTROL_PLANE_QUEUE_NAME else 'control'\<close>;
  the setting is a parameter.
\<close>

definition exclude_type :: "string \<Rightarrow> instance_group \<Rightarrow> node_type" where
  "exclude_type control_plane_queue_name ig =
     (if name ig = control_plane_queue_name then Execution else Control)"

text \<open>
  \<open>sorted(actual_groups, key=lambda x: len(x.instances))\<close> and
  \<open>sorted(actual_instances, key=lambda x: len(x.groups))\<close>, as the positions in the order
  Python's stable sort visits them.
\<close>

definition sorted_by_len :: "'a list list \<Rightarrow> nat list" where
  "sorted_by_len store = sort_key (\<lambda>i. length (store ! i)) [0..<length store]"

text \<open>
  The inner loop of lines 234-245 for the group \<open>ig\<close>, over the node positions in sorted
  order; the state is the group's list \<open>instances\<close> and the nodes' lists \<open>groups\<close>.
\<close>

fun minimum_loop ::
  "instance_row list \<Rightarrow> node_type \<Rightarrow> instance_group \<Rightarrow> nat list \<Rightarrow> int list \<times> int list list
   \<Rightarrow> int list \<times> int list list" where
  "minimum_loop objs excl ig [] (instances, groups) = (instances, groups)"
| "minimum_loop objs excl ig (i # rest) (instances, groups) =
     (if node_type (objs ! i) = excl then minimum_loop objs excl ig rest (instances, groups)
      else if int (length instances) \<ge> policy_instance_minimum ig then (instances, groups)
      else if inst_id (objs ! i) \<in> set instances then
        minimum_loop objs excl ig rest (instances, groups)
      else
        minimum_loop objs excl ig rest
          (instances @ [inst_id (objs ! i)], groups[i := groups ! i @ [group_id ig]]))"

text \<open>The inner loop of lines 256-267; \<open>candidate_pool_ct\<close> is positive here.\<close>

fun percentage_loop ::
  "instance_row list \<Rightarrow> node_type \<Rightarrow> instance_group \<Rightarrow> nat \<Rightarrow> nat list \<Rightarrow> int list \<times> int list list
   \<Rightarrow> int list \<times> int list list" where
  "percentage_loop objs excl ig candidate_pool_ct [] (instances, groups) = (instances, groups)"
| "percentage_loop objs excl ig candidate_pool_ct (i # rest) (instances, groups) =
     (if node_type (objs ! i) = excl then
        percentage_loop objs excl ig candidate_pool_ct rest (instances, groups)
      else if inst_id (objs ! i) \<in> set instances then
        percentage_loop objs excl ig candidate_pool_ct rest (instances, groups)
      else if 100 * real (length instances) / real candidate_pool_ct
                \<ge> real_of_int (policy_instance_percentage ig) then (instances, groups)
      else
        percentage_loop objs excl ig candidate_pool_ct rest
          (instances @ [inst_id (objs ! i)], groups[i := groups ! i @ [group_id ig]]))"

text \<open>One round of the outer loop of lines 231-247, for the group at position \<open>j\<close>.\<close>

definition minimum_step ::
  "string \<Rightarrow> instance_row list \<Rightarrow> instance_group list \<Rightarrow> nat \<Rightarrow> int list list \<times> int list list
   \<Rightarrow> int list list \<times> int list list" where
  "minimum_step cpq objs all_groups j st =
     (case st of (store, groups) \<Rightarrow>
        (case minimum_loop objs (exclude_type cpq (all_groups ! j)) (all_groups ! j)
                (sorted_by_len groups) (store ! j, groups) of
           (instances', groups') \<Rightarrow> (store[j := instances'], groups')))"

text \<open>One round of the outer loop of lines 250-269.\<close>

definition percentage_step ::
  "string \<Rightarrow> instance_row list \<Rightarrow> instance_group list \<Rightarrow> nat \<Rightarrow> int list list \<times> int list list
   \<Rightarrow> int list list \<times> int list list" where
  "percentage_step cpq objs all_groups j st =
     (case st of (store, groups) \<Rightarrow>
        (let excl = exclude_type cpq (all_groups ! j);
             candidate_pool_ct = length (filter (\<lambda>i. node_type i \<noteq> excl) objs)
         in if candidate_pool_ct = 0 then (store, groups)
            else
              (case percentage_loop objs excl (all_groups ! j) candidate_pool_ct
                      (sorted_by_len groups) (store ! j, groups) of
                 (instances', groups') \<Rightarrow> (store[j := instances'], groups'))))"

text \<open>Lines 229-247 and 250-269: the groups in the order of their sizes when the loop starts.\<close>

definition minimum_pass ::
  "string \<Rightarrow> instance_row list \<Rightarrow> instance_group list \<Rightarrow> int list list \<times> int list list
   \<Rightarrow> int list list \<times> int list list" where
  "minimum_pass cpq objs all_groups st =
     fold (minimum_step cpq objs all_groups) (sorted_by_len (fst st)) st"

definition percentage_pass ::
  "string \<Rightarrow> instance_row list \<Rightarrow> instance_group list \<Rightarrow> int list list \<times> int list list
   \<Rightarrow> int list list \<times> int list list" where
  "percentage_pass cpq objs all_groups st =
     fold (percentage_step cpq objs all_groups) (sorted_by_len (fst st)) st"

text \<open>
  Lines 201-269: the list \<open>instances\<close> of every group once the three passes are done, in
  the order of \<open>all_groups\<close>. The log lines of the passes are left out.
\<close>

definition computed_instances :: "string \<Rightarrow> cluster \<Rightarrow> int list list" where
  "computed_instances cpq c =
     (let hostnames_map = instance_hostnames_map (all_instances c);
          store = map (\<lambda>ig. policy_list_pass hostnames_map (policy_instance_list ig)) (cl_groups c);
          objs = filter managed_by_policy (all_instances c)
      in fst (percentage_pass cpq objs (cl_groups c)
                (minimum_pass cpq objs (cl_groups c) (store, replicate (length objs) []))))"

text \<open>Lines 272-276: \<open>set(g.instances) != set(g.prior_instances)\<close> for some group.\<close>

definition needs_change :: "cluster \<Rightarrow> int list list \<Rightarrow> bool" where
  "needs_change c computed =
     list_ex (\<lambda>(ig, instances). set instances \<noteq> cl_membership c (group_id ig))
       (zip (cl_groups c) computed)"

text \<open>
  Lines 284-295 for one group: container groups are skipped, the others get
  \<open>instances.add(*instances_to_add)\<close> and \<open>instances.remove(*instances_to_remove)\<close>, the
  two sets taken against the membership read at the start.
\<close>

definition apply_group ::
  "cluster \<Rightarrow> instance_group \<times> int list \<Rightarrow> (int \<Rightarrow> int set) \<Rightarrow> (int \<Rightarrow> int set)" where
  "apply_group c g membership =
     (case g of (ig, instances) \<Rightarrow>
        if is_container_group ig then membership
        else
          (let prior_instances = cl_membership c (group_id ig);
               instances_to_add = set instances - prior_instances;
               instances_to_remove = prior_instances - set instances
           in membership(group_id ig :=
                (membership (group_id ig) \<union> instances_to_add) - instances_to_remove)))"

datatype policy_outcome = No_op | Applied

text \<open>
  \<open>apply_cluster_membership_policies\<close> once the lock is held: the outcome tells whether the
  run ended at the no-op \<open>return\<close> of line 279 or went through the transaction.
\<close>

definition apply_cluster_membership_policies :: "string \<Rightarrow> cluster \<Rightarrow> policy_outcome \<times> cluster" where
  "apply_cluster_membership_policies cpq c =
     (let computed = computed_instances cpq c
      in if \<not> needs_change c computed then (No_op, c)
         else (Applied,
               c\<lparr>cl_membership := fold (apply_group c) (zip (cl_groups c) computed) (cl_membership c)\<rparr>))"

text \<open>The membership of a group holds no hop node.\<close>

definition hop_free :: "cluster \<Rightarrow> int set \<Rightarrow> bool" where
  "hop_free c members = (\<forall>inst \<in> set (cl_instances c). inst_id inst \<in> members \<longrightarrow> node_type inst \<noteq> Hop)"

text \<open>A small cluster for the concrete runs.\<close>

definition node :: "int \<Rightarrow> string \<Rightarrow> node_type \<Rightarrow> instance_row" where
  "node i h t = \<lparr>inst_id = i, hostname = h, node_type = t, managed_by_policy = True\<rparr>"

definition sample_group :: "int \<Rightarrow> string \<Rightarrow> int \<Rightarrow> bool \<Rightarrow> instance_group" where
  "sample_group g n m container =
     \<lparr>group_id = g, name = n, policy_instance_list = [], policy_instance_minimum = m,
      policy_instance_percentage = 0, is_container_group = container\<rparr>"


text \<open>
  Three policy-managed nodes and two groups with a minimum: when the group with minimum 2
  is reached, the nodes hold 0, 1 and 0 groups.
\<close>

definition scenario_cluster :: cluster where
  "scenario_cluster =
     \<lparr>cl_instances = [node 1 ''a'' Control, node 2 ''b'' Hybrid, node 3 ''c'' Hybrid],
      cl_groups = [sample_group 10 ''default'' 1 False, sample_group 11 ''controlplane'' 2 False],
      cl_membership = (\<lambda>_. {})\<rparr>"

text \<open>
  The invariant of the three passes: \<open>n\<close> lists of instances, \<open>k\<close> lists of groups, and
  every id in a list of instances taken from \<open>S\<close>.
\<close>

definition store_within :: "int set \<Rightarrow> nat \<Rightarrow> nat \<Rightarrow> int list list \<times> int list list \<Rightarrow> bool" where
  "store_within S n k st = (length (fst st) = n \<and> length (snd st) = k \<and> (\<forall>m \<in> set (fst st). set m \<subseteq> S))"

text \<open>A container group that has the hop node 4 as a member.\<close>

definition container_cluster :: cluster where
  "container_cluster =
     \<lparr>cl_instances = [node 1 ''a'' Hybrid, node 4 ''h'' Hop],
      cl_groups = [sample_group 10 ''default'' 1 False, sample_group 12 ''k8s'' 0 True],
      cl_membership = (\<lambda>_. {})(12 := {4})\<rparr>"

text \<open>A group that lists the hop node by hostname and has it as a member.\<close>

definition hop_cluster :: cluster where
  "hop_cluster =
     \<lparr>cl_instances = [node 1 ''a'' Hybrid, node 4 ''h'' Hop],
      cl_groups = [(sample_group 10 ''default'' 1 False)\<lparr>policy_instance_list := [''h'']\<rparr>],
      cl_membership = (\<lambda>_. {})(10 := {4})\<rparr>"


section \<open>awx/main/tasks/system.py: advisory locks\<close>

text \<open>
  \<open>advisory_lock\<close> comes from django-ansible-base and wraps PostgreSQL advisory locks. With
  \<open>wait=True\<close> the caller blocks until the lock is free and then holds it; with
  \<open>wait=False\<close> the call returns at once and yields whether the lock was obtained.
  \<open>held_elsewhere\<close> says whether another session holds the lock at the call.
\<close>

datatype lock_entry = Acquired | Not_acquired | Blocked_until_free

definition advisory_lock :: "bool \<Rightarrow> bool \<Rightarrow> lock_entry" where
  "advisory_lock wait held_elsewhere =
     (if \<not> held_elsewhere then Acquired
      else if wait then Blocked_until_free
      else Not_acquired)"

datatype cycle = Skipped | Ran | Ran_after_waiting

text \<open>
  Lines 191-198 around the body of \<open>apply_cluster_membership_policies\<close>:
  \<open>with advisory_lock('cluster_policy_lock', wait=True):\<close>. The value the lock yields is not
  looked at, the body runs whenever the \<open>with\<close> statement is entered; \<open>c\<close> is the cluster
  as the body reads it.
\<close>

definition apply_cluster_membership_policies_task :: "string \<Rightarrow> bool \<Rightarrow> cluster \<Rightarrow> cycle \<times> cluster" where
  "apply_cluster_membership_policies_task cpq held_elsewhere c =
     (case advisory_lock True held_elsewhere of
        Acquired \<Rightarrow> (Ran, snd (apply_cluster_membership_policies cpq c))
      | Not_acquired \<Rightarrow> (Ran, snd (apply_cluster_membership_policies cpq c))
      | Blocked_until_free \<Rightarrow> (Ran_after_waiting, snd (apply_cluster_membership_policies cpq c)))"

text \<open>
  Lines 761-766 of \<open>awx_periodic_scheduler\<close>:
  \<open>with advisory_lock('awx_periodic_scheduler_lock', ..., wait=False) as acquired:\<close> and
  \<open>if acquired is False: return\<close>. What the scheduler does once it holds the lock is the
  parameter \<open>run_schedules\<close>.
\<close>

definition awx_periodic_scheduler :: "('s \<Rightarrow> 's) \<Rightarrow> bool \<Rightarrow> 's \<Rightarrow> cycle \<times> 's" where
  "awx_periodic_scheduler run_schedules held_elsewhere s =
     (case advisory_lock False held_elsewhere of
        Acquired \<Rightarrow> (Ran, run_schedules s)
      | Not_acquired \<Rightarrow> (Skipped, s)
      | Blocked_until_free \<Rightarrow> (Ran_after_waiting, run_schedules s))"


section \<open>awx/main/tasks/system.py: the cluster node heartbeat\<close>

text \<open>
  The columns of \<open>Instance\<close> that \<open>cluster_node_heartbeat\<close> reads, on top of those of the
  membership policies.
\<close>

datatype node_state =
  Provisioning | Provision_fail | Installed | Ready | Unavailable | Deprovisioning | Deprovision_fail

record heartbeat_instance = instance_row +
  node_state :: node_state
  capacity :: int
  last_seen :: "real option"
  version :: string

text \<open>
  Python values as far as the comparison \<open>sqlstate == psycopg.errors.NoData\<close> needs them:
  \<open>None\<close>, a string, a class. In psycopg 3 the attribute \<open>sqlstate\<close> of an error is a
  string (or \<open>None\<close>) and \<open>psycopg.errors.NoData\<close> is the exception class for the state
  02000; Python's \<open>==\<close> between a string and a class is false.
\<close>

datatype py_value = Py_none | Py_str string | Py_class string

definition NoData :: py_value where
  "NoData = Py_class ''psycopg.errors.NoData''"

text \<open>
  \<open>e.__cause__\<close> of a \<open>DatabaseError\<close>: nothing, an exception without the attribute
  \<open>sqlstate\<close>, or one with it. What deleting or marking an instance can do: succeed, raise
  \<open>DatabaseError\<close>, raise something else.
\<close>

datatype db_cause = No_cause | Cause_without_sqlstate | Cause_with_sqlstate py_value

datatype db_outcome = Db_ok | Db_database_error db_cause | Db_other_error

text \<open>The log calls, by level (\<open>Exception\<close> is \<open>logger.exception\<close>) and message.\<close>

datatype log_level = Debug | Info | Warning | Error | Exception

datatype log_message =
    Rejoining_the_cluster | No_recorded_last_seen | Heartbeat_skew | Recreated_instance_record
  | Reports_newer_version | Failed_to_reap_jobs | Automatically_deprovisioned | Marked_as_lost
  | Sql_error_state | Another_instance_has_marked_lost | Error_marking_as_lost
  | No_sql_state_available

text \<open>What a run of the heartbeat does, in order; the string is the hostname concerned.\<close>

datatype effect =
    Inspect_execution_and_hop_nodes
  | Local_health_check string
  | Register_instance
  | Log log_level log_message string
  | Stop_local_services
  | Reap string
  | Reap_waiting string
  | Delete_instance string
  | Mark_offline string
  | Local_reap "string list"
  | Local_reap_waiting "string list"

datatype flow = Next | Return | Raise py_error

text \<open>
  The settings and the collaborators that are not in this file: \<open>Instance.is_lost\<close>,
  \<open>Instance.local_health_check\<close> (the instance as the check leaves it),
  \<open>Instance.objects.register\<close>, the comparison of a peer's version with the version of this
  node, whether \<open>reaper.reap\<close> and \<open>reaper.reap_waiting\<close> raise for a host, what the
  database does when the host is deleted or marked offline, and \<open>psycopg.errors.lookup\<close>.
\<close>

record heartbeat_env =
  cluster_host_id :: string
  auto_deprovision_instances :: bool
  debug :: bool
  cluster_node_heartbeat_period :: real
  is_lost :: "real \<Rightarrow> heartbeat_instance \<Rightarrow> bool"
  local_health_check :: "heartbeat_instance \<Rightarrow> heartbeat_instance"
  register :: "bool \<times> heartbeat_instance"
  newer_version :: "string \<Rightarrow> bool"
  reap_raises :: "string \<Rightarrow> bool"
  reap_waiting_raises :: "string \<Rightarrow> bool"
  db_write :: "string \<Rightarrow> db_outcome"
  lookup :: "py_value \<Rightarrow> py_error + py_value"

text \<open>Sequencing: the second part runs only if the first fell through to the next statement.\<close>

definition and_then :: "effect list \<times> flow \<Rightarrow> effect list \<times> flow \<Rightarrow> effect list \<times> flow" where
  "and_then a b = (case snd a of Next \<Rightarrow> (fst a @ fst b, snd b) | _ \<Rightarrow> a)"

text \<open>Lines 622-640: the update of this node, or its registration when its row is gone.\<close>

definition update_self ::
  "heartbeat_env \<Rightarrow> real \<Rightarrow> heartbeat_instance option \<Rightarrow> effect list \<times> flow" where
  "update_self env nowtime this_inst =
     (case this_inst of
        Some inst \<Rightarrow>
          (let startup_event = is_lost env nowtime inst;
               last_last_seen = last_seen inst;
               checked = local_health_check env inst
           in if startup_event \<and> capacity checked \<noteq> 0 then
                ([Local_health_check (hostname inst),
                  Log Warning Rejoining_the_cluster (hostname inst)], Return)
              else
                (case last_last_seen of
                   None \<Rightarrow>
                     ([Local_health_check (hostname inst),
                       Log Warning No_recorded_last_seen (hostname inst)], Next)
                 | Some seen \<Rightarrow>
                     if nowtime - seen > cluster_node_heartbeat_period env + 2 then
                       ([Local_health_check (hostname inst),
                         Log Warning Heartbeat_skew (hostname inst)], Next)
                     else ([Local_health_check (hostname inst)], Next)))
      | None \<Rightarrow>
          if auto_deprovision_instances env then
            (case register env of
               (changed, inst) \<Rightarrow>
                 ([Register_instance]
                  @ (if changed then [Log Warning Recreated_instance_record (hostname inst)] else [])
                  @ [Local_health_check (hostname inst)], Next))
          else ([], Raise (RuntimeError ''Cluster Host Not Found'')))"

text \<open>Lines 642-656: a peer of the control plane with a newer version stops this node.\<close>

fun check_versions :: "heartbeat_env \<Rightarrow> heartbeat_instance list \<Rightarrow> effect list \<times> flow" where
  "check_versions env [] = ([], Next)"
| "check_versions env (other_inst # rest) =
     (if node_type other_inst \<in> {Execution, Hop} then check_versions env rest
      else if version other_inst = [] \<or> prefix ''ansible-runner'' (version other_inst) then
        check_versions env rest
      else if newer_version env (version other_inst) \<and> \<not> debug env then
        ([Log Error Reports_newer_version (hostname other_inst), Stop_local_services],
         Raise (RuntimeError ''Shutting down.''))
      else check_versions env rest)"

text \<open>Lines 659-664: the first \<open>try\<close> of the loop over the lost instances.\<close>

definition reap_jobs :: "heartbeat_env \<Rightarrow> heartbeat_instance \<Rightarrow> effect list" where
  "reap_jobs env other_inst =
     (if reap_raises env (hostname other_inst) then
        [Log Exception Failed_to_reap_jobs (hostname other_inst)]
      else if reap_waiting_raises env (hostname other_inst) then
        [Reap (hostname other_inst), Log Exception Failed_to_reap_jobs (hostname other_inst)]
      else [Reap (hostname other_inst), Reap_waiting (hostname other_inst)])"

text \<open>Lines 674-686: the handler of \<open>DatabaseError\<close>; an exception of \<open>lookup\<close> leaves it.\<close>

definition handle_database_error :: "heartbeat_env \<Rightarrow> string \<Rightarrow> db_cause \<Rightarrow> effect list \<times> flow" where
  "handle_database_error env host cause =
     (case cause of
        Cause_with_sqlstate sqlstate \<Rightarrow>
          (case lookup env sqlstate of
             Inl err \<Rightarrow> ([], Raise err)
           | Inr sqlstate_str \<Rightarrow>
               ([Log Debug Sql_error_state host,
                 if sqlstate = NoData then Log Debug Another_instance_has_marked_lost host
                 else Log Exception Error_marking_as_lost host], Next))
      | No_cause \<Rightarrow> ([Log Exception No_sql_state_available host], Next)
      | Cause_without_sqlstate \<Rightarrow> ([Log Exception No_sql_state_available host], Next))"

text \<open>
  Lines 665-686: the second \<open>try\<close>; \<open>write\<close> is the effect of the statement that touches
  the database, \<open>logged\<close> the log call after it.
\<close>

definition guarded_write ::
  "heartbeat_env \<Rightarrow> string \<Rightarrow> effect \<Rightarrow> effect \<Rightarrow> effect list \<times> flow" where
  "guarded_write env host write logged =
     (case db_write env host of
        Db_ok \<Rightarrow> ([write, logged], Next)
      | Db_database_error cause \<Rightarrow> handle_database_error env host cause
      | Db_other_error \<Rightarrow> ([], Raise Other_exception))"

definition deprovision_or_mark_offline ::
  "heartbeat_env \<Rightarrow> heartbeat_instance \<Rightarrow> effect list \<times> flow" where
  "deprovision_or_mark_offline env other_inst =
     (if auto_deprovision_instances env \<and> node_type other_inst = Control then
        guarded_write env (hostname other_inst) (Delete_instance (hostname other_inst))
          (Log Info Automatically_deprovisioned (hostname other_inst))
      else if node_state other_inst = Ready then
        guarded_write env (hostname other_inst) (Mark_offline (hostname other_inst))
          (Log Error Marked_as_lost (hostname other_inst))
      else ([], Next))"

text \<open>Lines 658-686: the loop over the lost instances.\<close>

fun reap_lost_instances :: "heartbeat_env \<Rightarrow> heartbeat_instance list \<Rightarrow> effect list \<times> flow" where
  "reap_lost_instances env [] = ([], Next)"
| "reap_lost_instances env (other_inst # rest) =
     and_then (reap_jobs env other_inst, Next)
       (and_then (deprovision_or_mark_offline env other_inst) (reap_lost_instances env rest))"

text \<open>
  Lines 689-695: the local reaper; \<open>worker_tasks\<close> are the values of the dict, \<open>max\<close> of
  nothing raises ValueError.
\<close>

definition local_reaper :: "string list list option \<Rightarrow> effect list \<times> flow" where
  "local_reaper worker_tasks =
     (case worker_tasks of
        None \<Rightarrow> ([], Next)
      | Some task_lists \<Rightarrow>
          (let active_task_ids = concat task_lists
           in if task_lists = [] then ([Local_reap active_task_ids], Raise ValueError)
              else if Max (set (map length task_lists)) \<le> 1 then
                ([Local_reap active_task_ids, Local_reap_waiting active_task_ids], Next)
              else ([Local_reap active_task_ids], Next)))"

text \<open>
  \<open>cluster_node_heartbeat\<close>. \<open>instances\<close> are the rows of \<open>Instance\<close> as
  \<open>inspect_execution_and_hop_nodes\<close> leaves them; two rows are the same instance when
  their ids agree. The result is what the run did and how it ended: \<open>Next\<close> at the end of
  the function, \<open>Return\<close> at the early return, \<open>Raise\<close> with an exception. The debug
  line at the entry of the function is left out; a write that raises leaves no effect.
\<close>

definition cluster_node_heartbeat ::
  "heartbeat_env \<Rightarrow> real \<Rightarrow> heartbeat_instance list \<Rightarrow> string list list option
   \<Rightarrow> effect list \<times> flow" where
  "cluster_node_heartbeat env nowtime instances worker_tasks =
     (let instance_list = filter (\<lambda>inst. node_state inst \<in> {Ready, Unavailable, Installed}) instances;
          this_inst = find (\<lambda>inst. hostname inst = cluster_host_id env) instance_list;
          is_this = (\<lambda>inst. case this_inst of None \<Rightarrow> False
                              | Some this \<Rightarrow> inst_id inst = inst_id this);
          lost_instances =
            filter (\<lambda>inst. \<not> is_this inst \<and> is_lost env nowtime inst) instance_list;
          remaining =
            map (\<lambda>inst. if is_this inst then local_health_check env inst else inst)
              (filter (\<lambda>inst. is_this inst \<or> \<not> is_lost env nowtime inst) instance_list)
      in and_then ([Inspect_execution_and_hop_nodes], Next)
           (and_then (update_self env nowtime this_inst)
              (and_then (check_versions env remaining)
                 (and_then (reap_lost_instances env lost_instances)
                    (local_reaper worker_tasks)))))"

text \<open>Whether a run touched another instance: reaped its jobs, deleted it, marked it offline.\<close>

fun touches_other_instance :: "effect \<Rightarrow> bool" where
  "touches_other_instance (Reap h) = True"
| "touches_other_instance (Reap_waiting h) = True"
| "touches_other_instance (Delete_instance h) = True"
| "touches_other_instance (Mark_offline h) = True"
| "touches_other_instance e = False"

text \<open>A two-node cluster for the concrete runs: this node and a peer that is lost.\<close>

definition hb_node :: "int \<Rightarrow> string \<Rightarrow> real \<Rightarrow> heartbeat_instance" where
  "hb_node i h seen =
     \<lparr>inst_id = i, hostname = h, node_type = Hybrid, managed_by_policy = True,
      node_state = Ready, capacity = 10, last_seen = Some seen, version = ''24.6.1''\<rparr>"

definition sample_env :: heartbeat_env where
  "sample_env =
     \<lparr>cluster_host_id = ''a'', auto_deprovision_instances = False, debug = False,
      cluster_node_heartbeat_period = 60,
      is_lost = (\<lambda>nowtime inst. case last_seen inst of None \<Rightarrow> True
                                   | Some seen \<Rightarrow> nowtime - seen > 120),
      local_health_check = (\<lambda>inst. inst),
      register = (False, hb_node 1 ''a'' 0),
      newer_version = (\<lambda>v. False),
      reap_raises = (\<lambda>h. False),
      reap_waiting_raises = (\<lambda>h. False),
      db_write = (\<lambda>h. Db_ok),
      lookup = (\<lambda>v. case v of Py_str s \<Rightarrow> Inr (Py_class s) | _ \<Rightarrow> Inl AttributeError)\<rparr>"


text \<open>The sample environment with a local health check that leaves this node without capacity.\<close>

definition zero_capacity_env :: heartbeat_env where
  "zero_capacity_env = sample_env\<lparr>local_health_check := (\<lambda>inst. inst\<lparr>capacity := 0\<rparr>)\<rparr>"

text \<open>
  The sample environment with a database that answers every write with a
  \<open>DatabaseError\<close> caused by a psycopg error of SQL state 02000 (no data), and one whose
  error carries no SQL state (\<open>sqlstate\<close> is \<open>None\<close>).
\<close>

definition no_data_env :: heartbeat_env where
  "no_data_env =
     sample_env\<lparr>db_write := (\<lambda>h. Db_database_error (Cause_with_sqlstate (Py_str ''02000'')))\<rparr>"

definition no_sqlstate_env :: heartbeat_env where
  "no_sqlstate_env =
     sample_env\<lparr>db_write := (\<lambda>h. Db_database_error (Cause_with_sqlstate Py_none))\<rparr>"


text \<open>
  A group that has the hop node as a member, next to a container group whose membership
  is what the policies compute for it.
\<close>

definition settled_cluster :: cluster where
  "settled_cluster =
     \<lparr>cl_instances = [node 1 ''a'' Hybrid, node 4 ''h'' Hop],
      cl_groups = [sample_group 10 ''default'' 1 False, sample_group 12 ''k8s'' 0 True],
      cl_membership = (\<lambda>_. {})(10 := {4})\<rparr>"


section \<open>The minimum pass and the deferred updates in closed form\<close>


definition with_group :: "int \<Rightarrow> nat list \<Rightarrow> int list list \<Rightarrow> int list list" where
  "with_group g added groups =
     map (\<lambda>i. if i \<in> set added then groups ! i @ [g] else groups ! i) [0..<length groups]"


text \<open>
  Deferred updates as the specification words them. \<open>deferred_value\<close> is what a field holds
  after one keyword of \<open>delay_update\<close>: a field without a stored value takes the new one;
  with \<open>skip_if_already_set\<close> the stored value stays; the two merged fields keep the stored
  text when the new message occurs in it and else append the message after a newline; any
  other field takes the new value. \<open>record_message\<close> keeps a list of the messages recorded
  so far and adds a message that is not among them; \<open>join_messages\<close> joins them with
  newlines.
\<close>

definition deferred_value ::
  "'a py_ops \<Rightarrow> bool \<Rightarrow> string \<Rightarrow> 'a field_value \<Rightarrow> 'a field_value option \<Rightarrow> 'a field_value" where
  "deferred_value ops skip_if_already_set key val stored =
     (case stored of
        None \<Rightarrow> val
      | Some old \<Rightarrow>
          if skip_if_already_set then old
          else if key \<in> {''job_explanation'', ''result_traceback''} then
            (if sublist (py_str ops val) (py_str ops old) then old
             else Text (join_newline (py_str ops old) (py_str ops val)))
          else val)"

definition record_message :: "string list \<Rightarrow> string \<Rightarrow> string list" where
  "record_message recorded message =
     (if message \<in> set recorded then recorded else recorded @ [message])"

fun join_messages :: "string list \<Rightarrow> string" where
  "join_messages [] = []"
| "join_messages [m] = m"
| "join_messages (m # rest) = join_newline m (join_messages rest)"

text \<open>Staging one message after the other for one field, each by a call of \<open>delay_update\<close>.\<close>

fun stage_messages ::
  "'a py_ops \<Rightarrow> string \<Rightarrow> string list \<Rightarrow> 'a update_fields \<Rightarrow> py_error + 'a update_fields" where
  "stage_messages ops key [] extra_update_fields = Inr extra_update_fields"
| "stage_messages ops key (message # rest) extra_update_fields =
     (case delay_update ops False [(key, Text message)] extra_update_fields of
        Inl err \<Rightarrow> Inl err
      | Inr extra' \<Rightarrow> stage_messages ops key rest extra')"

text \<open>No field staged yet.\<close>

definition no_fields :: "unit update_fields" where
  "no_fields = Map.empty"


section \<open>Properties of the event handler\<close>

lemma event_handler_cases:
  assumes eh: "event_handler minimal t ev cb = Inr cb'"
  obtains (keepalive) "cb' = cb"
  | (first) "recent_event_timings cb = []"
      "cb' = dispatch ev False t (if maxlen cb \<noteq> 0 then record_timing t cb else cb)"
  | (suppressed) "recent_event_timings cb \<noteq> []" "cb' = dispatch ev True t cb"
  | (always) "recent_event_timings cb \<noteq> []" "in_minimal_events minimal (event ev)"
      "cb' = dispatch ev False t (record_timing t cb)"
  | (allowed) "recent_event_timings cb \<noteq> []" "\<not> in_minimal_events minimal (event ev)"
      "rate_allows (maxlen cb) (recent_event_timings cb) t
         (hd (recent_event_timings cb)) (last (recent_event_timings cb))"
      "cb' = dispatch ev False t (record_timing t cb)"
proof (cases "event ev = Some ''keepalive''")
  case True
  with eh have "cb' = cb" by (simp add: event_handler_def)
  then show ?thesis by (rule keepalive)
next
  case nk: False
  show ?thesis
  proof (cases "recent_event_timings cb")
    case Nil
    with eh nk have "cb' = dispatch ev False t (if maxlen cb \<noteq> 0 then record_timing t cb else cb)"
      by (simp add: event_handler_def)
    with Nil show ?thesis by (rule first)
  next
    case (Cons x xs)
    then have ne: "recent_event_timings cb \<noteq> []" by simp
    from Cons have hd: "hd (recent_event_timings cb) = x" by simp
    from eh nk Cons have se:
      "(case should_emit minimal (maxlen cb) (recent_event_timings cb) t x
              (last (recent_event_timings cb)) ev of
          Inl err \<Rightarrow> Inl err
        | Inr emit \<Rightarrow> Inr (dispatch ev (\<not> emit) t (if emit then record_timing t cb else cb)))
       = Inr cb'"
      by (simp add: event_handler_def)
    show ?thesis
    proof (cases "in_minimal_events minimal (event ev)")
      case True
      with se have "cb' = dispatch ev False t (record_timing t cb)"
        by (simp add: should_emit_def)
      with ne True show ?thesis by (rule always)
    next
      case nm: False
      show ?thesis
      proof (cases "no_output ev")
        case (Inl err)
        with se nm show ?thesis by (simp add: should_emit_def)
      next
        case (Inr b)
        show ?thesis
        proof (cases b)
          case True
          with se nm Inr have "cb' = dispatch ev True t cb" by (simp add: should_emit_def)
          with ne show ?thesis by (rule suppressed)
        next
          case nb: False
          show ?thesis
          proof (cases "rate_allows (maxlen cb) (recent_event_timings cb) t x
                          (last (recent_event_timings cb))")
            case True
            with se nm Inr nb have "cb' = dispatch ev False t (record_timing t cb)"
              by (simp add: should_emit_def)
            with ne nm True hd show ?thesis by (auto intro: allowed)
          next
            case False
            with se nm Inr nb have "cb' = dispatch ev True t cb" by (simp add: should_emit_def)
            with ne show ?thesis by (rule suppressed)
          qed
        qed
      qed
    qed
  qed
qed

lemma window_le_since: "window_emissions minimal s cb \<le> emitted_since s (dispatched cb)"
proof -
  have "length (filter (throttled_emission minimal s) ds)
          \<le> length (filter (\<lambda>d. \<not> skip_websocket_message d \<and> s \<le> handled_at d) ds)" for ds
    by (induction ds) (auto simp: throttled_emission_def)
  then show ?thesis by (simp add: window_emissions_def emitted_since_def)
qed

lemma since_le_emitted: "emitted_since s ds \<le> length (emitted ds)"
  by (induction ds) (auto simp: emitted_since_def emitted_def)

lemma since_zero:
  assumes "\<forall>d \<in> set (emitted ds). handled_at d < s"
  shows "emitted_since s ds = 0"
  using assms by (induction ds) (auto simp: emitted_since_def emitted_def)

lemma window_dispatch_skip [simp]:
  "window_emissions minimal s (dispatch ev True t cb) = window_emissions minimal s cb"
  by (simp add: window_emissions_def dispatch_def throttled_emission_def)

lemma window_dispatch_emit:
  "window_emissions minimal s (dispatch ev False t cb) =
     window_emissions minimal s cb
       + (if \<not> in_minimal_events minimal (event ev) \<and> s \<le> t \<and> t \<le> s + 1 then 1 else 0)"
  by (simp add: window_emissions_def dispatch_def throttled_emission_def)

lemma window_record [simp]:
  "window_emissions minimal s (record_timing t cb) = window_emissions minimal s cb"
  by (simp add: window_emissions_def record_timing_def)

lemma dispatched_dispatch:
  "dispatched (dispatch ev skip t cb) =
     dispatched cb @ [\<lparr>d_event = event ev, skip_websocket_message = skip, handled_at = t\<rparr>]"
  by (simp add: dispatch_def)

lemma fields_dispatch [simp]:
  "recent_event_timings (dispatch ev skip t cb) = recent_event_timings cb"
  "maxlen (dispatch ev skip t cb) = maxlen cb"
  by (simp_all add: dispatch_def)

lemma fields_record [simp]:
  "recent_event_timings (record_timing t cb) = deque_append (maxlen cb) (recent_event_timings cb) t"
  "maxlen (record_timing t cb) = maxlen cb"
  "dispatched (record_timing t cb) = dispatched cb"
  by (simp_all add: record_timing_def)

lemma deque_append_props:
  assumes "1 \<le> n" "length xs \<le> n" "sorted xs" "\<forall>x \<in> set xs. x \<le> (t::real)"
  shows "deque_append n xs t \<noteq> []"
    and "last (deque_append n xs t) = t"
    and "sorted (deque_append n xs t)"
    and "length (deque_append n xs t) \<le> n"
    and "length (deque_append n xs t) < n \<Longrightarrow> length xs < n \<and> deque_append n xs t = xs @ [t]"
    and "length xs < n \<Longrightarrow> deque_append n xs t = xs @ [t]"
    and "length xs = n \<Longrightarrow> deque_append n xs t = tl xs @ [t]"
    and "set (deque_append n xs t) \<subseteq> insert t (set xs)"
  using assms
  by (cases xs; auto simp: deque_append_def Let_def sorted_append last_tl dest: 
      split: if_splits)+


lemma emitted_snoc:
  "emitted (ds @ [d]) = (if skip_websocket_message d then emitted ds else emitted ds @ [d])"
  by (simp add: emitted_def)

lemma since_snoc:
  "emitted_since s (ds @ [d]) =
     emitted_since s ds + (if \<not> skip_websocket_message d \<and> s \<le> handled_at d then 1 else 0)"
  by (simp add: emitted_since_def)

lemma filter_ge_sorted_hd:
  assumes "xs \<noteq> []" "hd xs < (s::real)"
  shows "length (filter (\<lambda>x. s \<le> x) xs) = length (filter (\<lambda>x. s \<le> x) (tl xs))"
    and "length (filter (\<lambda>x. s \<le> x) xs) \<le> length xs - 1"
  using assms by (cases xs; simp add: le_trans [OF length_filter_le])+

lemma sorted_hd_le_hd_tl_snoc:
  assumes "sorted xs" "xs \<noteq> []" "\<forall>x \<in> set xs. x \<le> (t::real)"
  shows "hd xs \<le> hd (tl xs @ [t])"
  using assms by (cases xs; cases "tl xs"; auto)

lemma throttle_inv_emit:
  assumes inv: "throttle_inv minimal s cb" and n: "1 \<le> maxlen cb"
    and clock: "\<forall>x \<in> set (recent_event_timings cb). x \<le> t"
    and just: "in_minimal_events minimal (event ev) \<or> recent_event_timings cb = []
        \<or> rate_allows (maxlen cb) (recent_event_timings cb) t
             (hd (recent_event_timings cb)) (last (recent_event_timings cb))"
  shows "throttle_inv minimal s (dispatch ev False t (record_timing t cb))"
proof -
  define buf where "buf = recent_event_timings cb"
  define N where "N = maxlen cb"
  define ds where "ds = dispatched cb"
  define w where "w = window_emissions minimal s cb"
  define buf' where "buf' = deque_append N buf t"
  define d where "d = \<lparr>d_event = event ev, skip_websocket_message = False, handled_at = t\<rparr>"
  define \<delta> :: nat where
    "\<delta> = (if \<not> in_minimal_events minimal (event ev) \<and> s \<le> t \<and> t \<le> s + 1 then 1 else 0)"
  from inv have i1: "sorted buf" and i2: "length buf \<le> N"
    and i3: "length buf < N \<longrightarrow> length (emitted ds) = length buf"
    and i4: "\<forall>e \<in> set (emitted ds). buf \<noteq> [] \<and> handled_at e \<le> last buf"
    and i5: "buf \<noteq> [] \<and> hd buf < s \<longrightarrow>
               emitted_since s ds = length (filter (\<lambda>x. s \<le> x) buf)"
    and i6: "w \<le> N \<or> (buf \<noteq> [] \<and> real w - real N < real N * (min (last buf) (s + 1) - s))"
    by (simp_all add: throttle_inv_def Let_def buf_def N_def ds_def w_def)
  from n have N1: "1 \<le> N" by (simp add: N_def)
  from clock have cl: "\<forall>x \<in> set buf. x \<le> t" by (simp add: buf_def)
  note dq = deque_append_props [OF N1 i2 i1 cl, folded buf'_def]
  have w_es: "w \<le> emitted_since s ds"
    unfolding w_def ds_def by (rule window_le_since)
  have es_em: "emitted_since s ds \<le> length (emitted ds)"
    by (rule since_le_emitted)
  have last_le: "buf \<noteq> [] \<Longrightarrow> last buf \<le> t"
    using cl by simp
  have hd_le: "buf \<noteq> [] \<Longrightarrow> hd buf \<le> t"
    using cl by simp
  have cb'_buf: "recent_event_timings (dispatch ev False t (record_timing t cb)) = buf'"
    by (simp add: buf'_def buf_def N_def)
  have cb'_N: "maxlen (dispatch ev False t (record_timing t cb)) = N"
    by (simp add: N_def)
  have cb'_ds: "dispatched (dispatch ev False t (record_timing t cb)) = ds @ [d]"
    by (simp add: dispatched_dispatch ds_def d_def)
  have cb'_w: "window_emissions minimal s (dispatch ev False t (record_timing t cb)) = w + \<delta>"
    by (simp add: window_dispatch_emit w_def \<delta>_def)
  have em': "emitted (ds @ [d]) = emitted ds @ [d]"
    by (simp add: emitted_snoc d_def)
  have es': "emitted_since s (ds @ [d]) = emitted_since s ds + (if s \<le> t then 1 else 0)"
    by (simp add: since_snoc d_def)
  have g1: "sorted buf'" by (rule dq(3))
  have g2: "length buf' \<le> N" by (rule dq(4))
  have g3: "length buf' < N \<longrightarrow> length (emitted (ds @ [d])) = length buf'"
  proof
    assume "length buf' < N"
    then have "length buf < N" "buf' = buf @ [t]" using dq(5) by simp_all
    with i3 show "length (emitted (ds @ [d])) = length buf'" by (simp add: em')
  qed
  have g4: "\<forall>e \<in> set (emitted (ds @ [d])). buf' \<noteq> [] \<and> handled_at e \<le> last buf'"
  proof
    fix e assume "e \<in> set (emitted (ds @ [d]))"
    then have "e = d \<or> e \<in> set (emitted ds)" by (auto simp: em')
    then have "handled_at e \<le> t"
    proof
      assume "e = d" then show ?thesis by (simp add: d_def)
    next
      assume "e \<in> set (emitted ds)"
      with i4 have "buf \<noteq> []" "handled_at e \<le> last buf" by simp_all
      with last_le show ?thesis by simp
    qed
    with dq(1) dq(2) show "buf' \<noteq> [] \<and> handled_at e \<le> last buf'" by simp
  qed
  have g5: "buf' \<noteq> [] \<and> hd buf' < s \<longrightarrow>
              emitted_since s (ds @ [d]) = length (filter (\<lambda>x. s \<le> x) buf')"
  proof
    assume a: "buf' \<noteq> [] \<and> hd buf' < s"
    show "emitted_since s (ds @ [d]) = length (filter (\<lambda>x. s \<le> x) buf')"
    proof (cases "length buf < N")
      case True
      then have b': "buf' = buf @ [t]" by (rule dq(6))
      show ?thesis
      proof (cases "buf = []")
        case True
        with i3 N1 have "length (emitted ds) = 0" by simp
        with es_em have "emitted_since s ds = 0" by simp
        with True b' show ?thesis by (simp add: es')
      next
        case False
        with a b' have "hd buf < s" by simp
        with False i5 have "emitted_since s ds = length (filter (\<lambda>x. s \<le> x) buf)" by simp
        then show ?thesis by (simp add: es' b')
      qed
    next
      case False
      with i2 have full: "length buf = N" by simp
      with N1 have ne: "buf \<noteq> []" by auto
      from full have b': "buf' = tl buf @ [t]" by (rule dq(7))
      have "hd buf \<le> hd buf'"
        unfolding b' by (rule sorted_hd_le_hd_tl_snoc [OF i1 ne cl])
      with a have lt: "hd buf < s" by simp
      with ne i5 have "emitted_since s ds = length (filter (\<lambda>x. s \<le> x) buf)" by simp
      also have "\<dots> = length (filter (\<lambda>x. s \<le> x) (tl buf))"
        by (rule filter_ge_sorted_hd(1) [OF ne lt])
      finally show ?thesis by (simp add: es' b')
    qed
  qed
  have g6: "w + \<delta> \<le> N
      \<or> (buf' \<noteq> [] \<and> real (w + \<delta>) - real N < real N * (min (last buf') (s + 1) - s))"
  proof (cases "\<delta> = 0")
    case True
    from i6 show ?thesis
    proof
      assume "w \<le> N" with True show ?thesis by simp
    next
      assume b: "buf \<noteq> [] \<and> real w - real N < real N * (min (last buf) (s + 1) - s)"
      with last_le have "min (last buf) (s + 1) - s \<le> min t (s + 1) - s" by simp
      then have "real N * (min (last buf) (s + 1) - s) \<le> real N * (min t (s + 1) - s)"
        by (rule mult_left_mono) simp
      with b True dq(1) dq(2) show ?thesis by simp
    qed
  next
    case False
    then have d1: "\<delta> = 1" and nm: "\<not> in_minimal_events minimal (event ev)"
      and st: "s \<le> t" and ts: "t \<le> s + 1"
      by (simp_all add: \<delta>_def split: if_splits)
    from just nm have "buf = [] \<or> (buf \<noteq> [] \<and> rate_allows N buf t (hd buf) (last buf))"
      by (auto simp: buf_def N_def)
    then show ?thesis
    proof
      assume "buf = []"
      with i3 N1 have "length (emitted ds) = 0" by simp
      with es_em w_es have "w = 0" by simp
      with d1 N1 show ?thesis by simp
    next
      assume ra: "buf \<noteq> [] \<and> rate_allows N buf t (hd buf) (last buf)"
      then have ne: "buf \<noteq> []" by simp
      from ra consider (a) "t - hd buf > 1" | (b) "real N * (t - last buf) > 1"
        | (c) "length buf \<noteq> N"
        by (auto simp: rate_allows_def)
      then show ?thesis
      proof cases
        case c
        with i2 have "length buf < N" by simp
        with i3 es_em w_es have "w < N" by simp
        with d1 show ?thesis by simp
      next
        case a
        with ts have lt: "hd buf < s" by simp
        with ne i5 have "emitted_since s ds = length (filter (\<lambda>x. s \<le> x) buf)" by simp
        also have "\<dots> \<le> length buf - 1" by (rule filter_ge_sorted_hd(2) [OF ne lt])
        finally have "emitted_since s ds \<le> N - 1" using i2 by simp
        with w_es N1 have "w < N" by simp
        with d1 show ?thesis by simp
      next
        case b
        show ?thesis
        proof (cases "last buf < s")
          case True
          have "\<forall>e \<in> set (emitted ds). handled_at e < s"
            using i4 True by fastforce
          then have "emitted_since s ds = 0" by (rule since_zero)
          with w_es have "w = 0" by simp
          with d1 N1 show ?thesis by simp
        next
          case False
          then have sl: "s \<le> last buf" by simp
          from last_le [OF ne] ts have m1: "min (last buf) (s + 1) = last buf" by simp
          from ts have m2: "min t (s + 1) = t" by simp
          have mono: "real N * s \<le> real N * last buf"
            using sl by (rule mult_left_mono) simp
          have key: "real w - real N < real N * (last buf - s) \<or> w \<le> N"
            using i6 m1 by auto
          have "real w + 1 - real N < real N * (t - s) \<or> w + 1 \<le> N"
          proof (cases "w < N")
            case True then show ?thesis by simp
          next
            case nl: False
            show ?thesis
            proof (cases "w = N")
              case True
              with b mono show ?thesis by (simp add: right_diff_distrib)
            next
              case False
              with nl have "\<not> w \<le> N" by simp
              with key have "real w - real N < real N * (last buf - s)" by simp
              with b show ?thesis by (simp add: right_diff_distrib)
            qed
          qed
          with d1 dq(1) dq(2) m2 show ?thesis by auto
        qed
      qed
    qed
  qed
  show ?thesis
    unfolding throttle_inv_def Let_def cb'_buf cb'_N cb'_ds cb'_w
    using g1 g2 g3 g4 g5 g6 by simp
qed


lemma throttle_inv_skip:
  assumes "throttle_inv minimal s cb"
  shows "throttle_inv minimal s (dispatch ev True t cb)"
  using assms
  by (simp add: throttle_inv_def Let_def dispatched_dispatch emitted_snoc since_snoc)

lemma throttle_inv_step:
  assumes inv: "throttle_inv minimal s cb" and n: "1 \<le> maxlen cb"
    and clock: "\<forall>x \<in> set (recent_event_timings cb). x \<le> t"
    and eh: "event_handler minimal t ev cb = Inr cb'"
  shows "throttle_inv minimal s cb'"
  using eh
proof (cases rule: event_handler_cases)
  case keepalive
  with inv show ?thesis by simp
next
  case first
  with n have "cb' = dispatch ev False t (record_timing t cb)" by simp
  with first(1) throttle_inv_emit [OF inv n clock] show ?thesis by simp
next
  case suppressed
  with inv show ?thesis by (simp add: throttle_inv_skip)
next
  case always
  with throttle_inv_emit [OF inv n clock] show ?thesis by simp
next
  case allowed
  with throttle_inv_emit [OF inv n clock] show ?thesis by simp
qed

lemma event_handler_maxlen:
  assumes "event_handler minimal t ev cb = Inr cb'"
  shows "maxlen cb' = maxlen cb"
  using assms by (cases rule: event_handler_cases) (simp_all split: if_splits)

lemma deque_append_subset: "set (deque_append n xs x) \<subseteq> insert x (set xs)"
  by (cases xs) (auto simp: deque_append_def Let_def dest: list.set_sel(2))

lemma event_handler_timings:
  assumes "event_handler minimal t ev cb = Inr cb'"
  shows "set (recent_event_timings cb') \<subseteq> insert t (set (recent_event_timings cb))"
  using assms deque_append_subset [of "maxlen cb" "recent_event_timings cb" t]
  by (cases rule: event_handler_cases) (auto split: if_splits)

lemma throttle_inv_run:
  assumes "throttle_inv minimal s cb" "1 \<le> maxlen cb"
    and "sorted (map fst evs)"
    and "\<forall>x \<in> set (recent_event_timings cb). \<forall>e \<in> set evs. x \<le> fst e"
    and "run_events minimal evs cb = Inr cb'"
  shows "throttle_inv minimal s cb' \<and> maxlen cb' = maxlen cb"
  using assms
proof (induction evs arbitrary: cb)
  case Nil
  then show ?case by simp
next
  case (Cons e evs)
  obtain t ev where e: "e = (t, ev)" by (cases e)
  from Cons.prems(5) e obtain cb1 where
    eh: "event_handler minimal t ev cb = Inr cb1" and run: "run_events minimal evs cb1 = Inr cb'"
    by (auto split: sum.splits)
  from Cons.prems(4) e have clock: "\<forall>x \<in> set (recent_event_timings cb). x \<le> t" by simp
  have inv1: "throttle_inv minimal s cb1"
    by (rule throttle_inv_step [OF Cons.prems(1) Cons.prems(2) clock eh])
  have n1: "maxlen cb1 = maxlen cb" by (rule event_handler_maxlen [OF eh])
  have sorted1: "sorted (map fst evs)" using Cons.prems(3) by simp
  have later: "\<forall>e' \<in> set evs. t \<le> fst e'" using Cons.prems(3) e by auto
  have clock1: "\<forall>x \<in> set (recent_event_timings cb1). \<forall>e' \<in> set evs. x \<le> fst e'"
  proof (intro ballI)
    fix x e' assume x: "x \<in> set (recent_event_timings cb1)" and e': "e' \<in> set evs"
    from x event_handler_timings [OF eh] have "x = t \<or> x \<in> set (recent_event_timings cb)" by auto
    then show "x \<le> fst e'"
    proof
      assume "x = t" with later e' show ?thesis by simp
    next
      assume "x \<in> set (recent_event_timings cb)"
      with Cons.prems(4) e' show ?thesis by simp
    qed
  qed
  from Cons.IH [OF inv1 _ sorted1 clock1 run] Cons.prems(2) n1 show ?case by simp
qed

lemma throttle_inv_new: "throttle_inv minimal s (new_callback n)"
  by (simp add: throttle_inv_def new_callback_def emitted_def emitted_since_def window_emissions_def)

lemma throttle_inv_bound:
  assumes inv: "throttle_inv minimal s cb" and n: "1 \<le> maxlen cb"
  shows "window_emissions minimal s cb \<le> 2 * maxlen cb - 1"
proof -
  define N where "N = maxlen cb"
  define w where "w = window_emissions minimal s cb"
  define L where "L = last (recent_event_timings cb)"
  from inv have "w \<le> N \<or> real w - real N < real N * (min L (s + 1) - s)"
    by (auto simp: throttle_inv_def Let_def N_def w_def L_def)
  then have "w \<le> 2 * N - 1"
  proof
    assume "w \<le> N" with n show ?thesis by (simp add: N_def)
  next
    assume a: "real w - real N < real N * (min L (s + 1) - s)"
    have "min L (s + 1) - s \<le> 1" by simp
    then have "real N * (min L (s + 1) - s) \<le> real N * 1"
      by (rule mult_left_mono) simp
    with a have "real w < real N + real N" by simp
    then have "real w < real (N + N)" by simp
    then have "w < N + N" by (simp only: of_nat_less_iff)
    then show ?thesis by simp
  qed
  then show ?thesis by (simp add: N_def w_def)
qed

text \<open>
  Claim C1, as the code has it. For a callback with window capacity \<open>n \<ge> 1\<close> that starts
  empty and handles events under a clock that never runs backwards, the events sent to the
  live channel whose type is outside the always-emit set number at most \<open>2 * n - 1\<close> in any
  closed window of one second. The bound is not \<open>n\<close>: the rule
  \<open>maxlen * (cpu_time - last_window_time) > 1.0\<close> admits an event as soon as the latest
  emission is more than \<open>1 / n\<close> seconds old, also right after a burst that filled the deque.
\<close>

theorem throttle_window_bound:
  assumes "1 \<le> n" and "sorted (map fst evs)"
    and "run_events minimal evs (new_callback n) = Inr cb"
  shows "window_emissions minimal s cb \<le> 2 * n - 1"
proof -
  have "throttle_inv minimal s cb \<and> maxlen cb = maxlen (new_callback n)"
    by (rule throttle_inv_run [OF throttle_inv_new _ assms(2) _ assms(3)])
       (use assms(1) in \<open>simp_all add: new_callback_def\<close>)
  then have "throttle_inv minimal s cb" "maxlen cb = n" by (simp_all add: new_callback_def)
  with throttle_inv_bound [of minimal s cb] assms(1) show ?thesis by simp
qed

theorem throttle_window_bound_witness:
  "(1::nat) \<le> 2
   \<and> sorted (map fst [(0::real, task_event), (0, task_event), (3 / 4, task_event), (3 / 4, task_event)])
   \<and> run_events sample_minimal_events
         [(0, task_event), (0, task_event), (3 / 4, task_event), (3 / 4, task_event)]
         (new_callback 2)
       = Inr \<lparr>recent_event_timings = [0, 3 / 4], maxlen = 2,
              dispatched =
                [\<lparr>d_event = Some ''runner_on_ok'', skip_websocket_message = False, handled_at = 0\<rparr>,
                 \<lparr>d_event = Some ''runner_on_ok'', skip_websocket_message = False, handled_at = 0\<rparr>,
                 \<lparr>d_event = Some ''runner_on_ok'', skip_websocket_message = False, handled_at = 3 / 4\<rparr>,
                 \<lparr>d_event = Some ''runner_on_ok'', skip_websocket_message = True, handled_at = 3 / 4\<rparr>],
              event_ct = 4\<rparr>
   \<and> window_emissions sample_minimal_events 0
         \<lparr>recent_event_timings = [0, 3 / 4], maxlen = 2,
          dispatched =
            [\<lparr>d_event = Some ''runner_on_ok'', skip_websocket_message = False, handled_at = 0\<rparr>,
             \<lparr>d_event = Some ''runner_on_ok'', skip_websocket_message = False, handled_at = 0\<rparr>,
             \<lparr>d_event = Some ''runner_on_ok'', skip_websocket_message = False, handled_at = 3 / 4\<rparr>,
             \<lparr>d_event = Some ''runner_on_ok'', skip_websocket_message = True, handled_at = 3 / 4\<rparr>],
          event_ct = 4\<rparr>
       \<le> 2 * 2 - 1"
proof -
  have n: "(1::nat) \<le> 2" by simp
  have srt: "sorted (map fst [(0::real, task_event), (0, task_event), (3 / 4, task_event), (3 / 4, task_event)])"
    by simp
  have run: "run_events sample_minimal_events
         [(0, task_event), (0, task_event), (3 / 4, task_event), (3 / 4, task_event)]
         (new_callback 2)
       = Inr \<lparr>recent_event_timings = [0, 3 / 4], maxlen = 2,
              dispatched =
                [\<lparr>d_event = Some ''runner_on_ok'', skip_websocket_message = False, handled_at = 0\<rparr>,
                 \<lparr>d_event = Some ''runner_on_ok'', skip_websocket_message = False, handled_at = 0\<rparr>,
                 \<lparr>d_event = Some ''runner_on_ok'', skip_websocket_message = False, handled_at = 3 / 4\<rparr>,
                 \<lparr>d_event = Some ''runner_on_ok'', skip_websocket_message = True, handled_at = 3 / 4\<rparr>],
              event_ct = 4\<rparr>"
    by (simp add: event_handler_def new_callback_def task_event_def sample_minimal_events_def
        should_emit_def no_output_def rate_allows_def dispatch_def record_timing_def
        deque_append_def in_minimal_events_def)
  have bound: "window_emissions sample_minimal_events 0
         \<lparr>recent_event_timings = [0, 3 / 4], maxlen = 2,
          dispatched =
            [\<lparr>d_event = Some ''runner_on_ok'', skip_websocket_message = False, handled_at = 0\<rparr>,
             \<lparr>d_event = Some ''runner_on_ok'', skip_websocket_message = False, handled_at = 0\<rparr>,
             \<lparr>d_event = Some ''runner_on_ok'', skip_websocket_message = False, handled_at = 3 / 4\<rparr>,
             \<lparr>d_event = Some ''runner_on_ok'', skip_websocket_message = True, handled_at = 3 / 4\<rparr>],
          event_ct = 4\<rparr>
       \<le> 2 * 2 - 1"
    by (rule throttle_window_bound [OF n srt run])
  from n srt run bound show ?thesis by (intro conjI)
qed

text \<open>
  Claim C1 as stated fails: with capacity 2, two events at time 0 fill the deque and a
  third at time 3/4 passes the rate rule (2 * 3/4 > 1), so three throttled events reach the
  live channel inside the window from 0 to 1.
\<close>

theorem throttle_window_capacity_counterexample:
  "map_sum id (window_within_capacity sample_minimal_events 0)
     (run_events sample_minimal_events
        [(0, task_event), (0, task_event), (3 / 4, task_event)] (new_callback 2))
   = Inr False"
  by (simp add: window_within_capacity_def window_emissions_def throttled_emission_def
      event_handler_def new_callback_def task_event_def sample_minimal_events_def
      should_emit_def no_output_def rate_allows_def dispatch_def record_timing_def
      deque_append_def in_minimal_events_def)

text \<open>
  Claim C2, as the code has it. A non-keepalive event that arrives while the deque of
  timestamps is non-empty (and that carries its line markers when its stdout is empty) is
  dispatched exactly once and counted. It is sent to the live channel if its type is in the
  always-emit set; otherwise it is flagged if its stdout is empty and its start and end
  lines agree; otherwise it is sent iff the oldest buffered timestamp is more than one
  second old, or \<open>maxlen\<close> times the age of the newest exceeds 1, or the deque is not full.
  A flagged event carries \<open>skip_websocket_message\<close> and leaves the deque as it was; an
  event sent to the live channel appends its time.
\<close>

theorem event_handler_decision:
  assumes "event ev \<noteq> Some ''keepalive''" and "recent_event_timings cb \<noteq> []"
    and "in_minimal_events minimal (event ev) \<or> no_output ev = Inr quiet"
  shows "(in_minimal_events minimal (event ev) \<or>
            (quiet \<longleftrightarrow> stdout ev = Some [] \<and> start_line ev = end_line ev))
    \<and> (\<exists>emit.
          (emit \<longleftrightarrow>
             in_minimal_events minimal (event ev)
             \<or> (\<not> quiet
                 \<and> (cpu_time - hd (recent_event_timings cb) > 1
                    \<or> real (maxlen cb) * (cpu_time - last (recent_event_timings cb)) > 1
                    \<or> length (recent_event_timings cb) \<noteq> maxlen cb)))
          \<and> event_handler minimal cpu_time ev cb =
              Inr (cb\<lparr>recent_event_timings :=
                        (if emit then deque_append (maxlen cb) (recent_event_timings cb) cpu_time
                         else recent_event_timings cb),
                      dispatched := dispatched cb @
                        [\<lparr>d_event = event ev, skip_websocket_message = \<not> emit,
                          handled_at = cpu_time\<rparr>],
                      event_ct := event_ct cb + 1\<rparr>))"
proof -
  obtain x xs where buf: "recent_event_timings cb = x # xs"
    using assms(2) by (cases "recent_event_timings cb") auto
  define emit where "emit \<longleftrightarrow>
     in_minimal_events minimal (event ev)
     \<or> (\<not> quiet
         \<and> (cpu_time - hd (recent_event_timings cb) > 1
            \<or> real (maxlen cb) * (cpu_time - last (recent_event_timings cb)) > 1
            \<or> length (recent_event_timings cb) \<noteq> maxlen cb))"
  have q: "in_minimal_events minimal (event ev) \<or>
            (quiet \<longleftrightarrow> stdout ev = Some [] \<and> start_line ev = end_line ev)"
    using assms(3) by (auto simp: no_output_def split: if_splits option.splits)
  have se: "should_emit minimal (maxlen cb) (recent_event_timings cb) cpu_time x (last (x # xs)) ev
              = Inr emit"
  proof (cases "in_minimal_events minimal (event ev)")
    case True
    then show ?thesis by (simp add: should_emit_def emit_def)
  next
    case False
    with assms(3) have no: "no_output ev = Inr quiet" by simp
    with False buf show ?thesis
      by (cases quiet) (simp_all add: should_emit_def emit_def rate_allows_def)
  qed
  have eh: "event_handler minimal cpu_time ev cb =
              Inr (cb\<lparr>recent_event_timings :=
                        (if emit then deque_append (maxlen cb) (recent_event_timings cb) cpu_time
                         else recent_event_timings cb),
                      dispatched := dispatched cb @
                        [\<lparr>d_event = event ev, skip_websocket_message = \<not> emit,
                          handled_at = cpu_time\<rparr>],
                      event_ct := event_ct cb + 1\<rparr>)"
    using assms(1) buf se
    by (cases emit) (simp_all add: event_handler_def dispatch_def record_timing_def)
  from emit_def eh have "\<exists>emit.
          (emit \<longleftrightarrow>
             in_minimal_events minimal (event ev)
             \<or> (\<not> quiet
                 \<and> (cpu_time - hd (recent_event_timings cb) > 1
                    \<or> real (maxlen cb) * (cpu_time - last (recent_event_timings cb)) > 1
                    \<or> length (recent_event_timings cb) \<noteq> maxlen cb)))
          \<and> event_handler minimal cpu_time ev cb =
              Inr (cb\<lparr>recent_event_timings :=
                        (if emit then deque_append (maxlen cb) (recent_event_timings cb) cpu_time
                         else recent_event_timings cb),
                      dispatched := dispatched cb @
                        [\<lparr>d_event = event ev, skip_websocket_message = \<not> emit,
                          handled_at = cpu_time\<rparr>],
                      event_ct := event_ct cb + 1\<rparr>)"
    by blast
  with q show ?thesis by (rule conjI)
qed

theorem event_handler_decision_witness:
  "event silent_event \<noteq> Some ''keepalive''
   \<and> recent_event_timings ((new_callback 5)\<lparr>recent_event_timings := [1]\<rparr>) \<noteq> []
   \<and> no_output silent_event = Inr True
   \<and> event_handler sample_minimal_events 7 silent_event
        ((new_callback 5)\<lparr>recent_event_timings := [1]\<rparr>)
      = Inr \<lparr>recent_event_timings = [1], maxlen = 5,
             dispatched = [\<lparr>d_event = Some ''runner_on_start'', skip_websocket_message = True,
                            handled_at = 7\<rparr>],
             event_ct = 1\<rparr>"
proof -
  have a: "event silent_event \<noteq> Some ''keepalive''" by (simp add: silent_event_def)
  have b: "recent_event_timings ((new_callback 5)\<lparr>recent_event_timings := [1]\<rparr>) \<noteq> []" by simp
  have c: "no_output silent_event = Inr True" by (simp add: no_output_def silent_event_def)
  have c': "in_minimal_events sample_minimal_events (event silent_event) \<or> no_output silent_event = Inr True"
    using c by simp
  have nm: "\<not> in_minimal_events sample_minimal_events (event silent_event)"
    by (simp add: in_minimal_events_def silent_event_def sample_minimal_events_def)
  from event_handler_decision [OF a b c', of 7] nm a b c show ?thesis
    by (auto simp: new_callback_def silent_event_def)
qed

text \<open>
  Claim C2 as stated fails on an empty deque: the first event is sent to the live channel
  although its stdout is empty and its line markers agree.
\<close>

theorem event_handler_silent_first_counterexample:
  "map_sum id dispatched (event_handler sample_minimal_events 7 silent_event (new_callback 5))
   = Inr [\<lparr>d_event = Some ''runner_on_start'', skip_websocket_message = False, handled_at = 7\<rparr>]"
  by (simp add: event_handler_def new_callback_def silent_event_def dispatch_def record_timing_def)

text \<open>
  Claim C10, as the code has it. A non-keepalive event that arrives while the deque is empty
  is dispatched without the skip flag and counted, whatever its type, stdout and line
  markers (no key of the event is read, so nothing can raise). Its time becomes the only
  element of the deque when \<open>maxlen\<close> is non-zero; with \<open>maxlen = 0\<close> the deque stays empty,
  so every later event takes this branch again.
\<close>

theorem event_handler_empty_window:
  assumes "event ev \<noteq> Some ''keepalive''" and "recent_event_timings cb = []"
  shows "event_handler minimal cpu_time ev cb =
           Inr (cb\<lparr>recent_event_timings := (if maxlen cb = 0 then [] else [cpu_time]),
                   dispatched := dispatched cb @
                     [\<lparr>d_event = event ev, skip_websocket_message = False, handled_at = cpu_time\<rparr>],
                   event_ct := event_ct cb + 1\<rparr>)"
  using assms
  by (simp add: event_handler_def dispatch_def record_timing_def deque_append_def)

theorem event_handler_empty_window_witness:
  "event silent_event \<noteq> Some ''keepalive''
   \<and> recent_event_timings (new_callback 5) = []
   \<and> event_handler sample_minimal_events 7 silent_event (new_callback 5)
      = Inr \<lparr>recent_event_timings = [7], maxlen = 5,
             dispatched = [\<lparr>d_event = Some ''runner_on_start'', skip_websocket_message = False,
                            handled_at = 7\<rparr>],
             event_ct = 1\<rparr>"
proof -
  have a: "event silent_event \<noteq> Some ''keepalive''" by (simp add: silent_event_def)
  have b: "recent_event_timings (new_callback 5) = []" by (simp add: new_callback_def)
  from event_handler_empty_window [OF a b, of sample_minimal_events 7] a b show ?thesis
    by (simp add: new_callback_def silent_event_def)
qed

text \<open>
  Claim C10 as stated fails for capacity 0: the guard \<open>elif self.recent_event_timings.maxlen\<close>
  skips the append, no timestamp is recorded, and the second event is not throttled either.
\<close>

theorem event_handler_zero_capacity_counterexample:
  "map_sum id recent_event_timings
     (event_handler sample_minimal_events 7 task_event (new_callback 0)) = Inr []
   \<and> map_sum id (map skip_websocket_message \<circ> dispatched)
       (run_events sample_minimal_events [(7, task_event), (7, silent_event)] (new_callback 0))
     = Inr [False, False]"
  by (simp add: event_handler_def new_callback_def task_event_def silent_event_def dispatch_def)


section \<open>Properties of the deferred field updates\<close>

lemma delay_update_single:
  "delay_update ops skip [(key, val)] extra = delay_update_field ops skip key val extra"
  by (simp split: sum.splits)

lemma stage_status_field_text:
  assumes "\<forall>a. extra fname \<noteq> Some (Opaque a)"
    and "fname \<in> {''job_explanation'', ''result_traceback''}"
  shows "stage_status_field ops fname (map_option Text message) extra
           = Inr (extra(fname := staged_text (extra fname) message))"
proof (cases message)
  case None
  then show ?thesis by (simp add: stage_status_field_def staged_text_def)
next
  case (Some m)
  show ?thesis
  proof (cases "m = []")
    case True
    with Some show ?thesis by (simp add: stage_status_field_def staged_text_def)
  next
    case ne: False
    show ?thesis
    proof (cases "extra fname")
      case None
      with Some ne show ?thesis
        by (simp add: stage_status_field_def staged_text_def delay_update_field_def)
    next
      case (Some stored)
      with assms(1) obtain prior where p: "stored = Text prior" by (cases stored) auto
      have same: "extra(fname \<mapsto> Text prior) = extra"
        using Some p by (auto simp: fun_upd_idem_iff)
      from Some p ne \<open>message = Some m\<close> assms(2) same show ?thesis
        by (simp add: stage_status_field_def staged_text_def delay_update_field_def
            merge_append_def)
    qed
  qed
qed

lemma delay_update_field_deferred:
  assumes "skip \<or> key \<notin> {''job_explanation'', ''result_traceback''}
           \<or> (\<forall>a. extra key \<noteq> Some (Opaque a))"
  shows "delay_update_field ops skip key val extra
           = Inr (extra(key \<mapsto> deferred_value ops skip key val (extra key)))"
proof (cases "extra key")
  case None
  then show ?thesis by (simp add: delay_update_field_def deferred_value_def)
next
  case (Some old)
  then have same: "extra(key \<mapsto> old) = extra" by (auto simp: fun_upd_idem_iff)
  show ?thesis
  proof (cases "skip \<or> key \<notin> {''job_explanation'', ''result_traceback''}")
    case True
    with Some same show ?thesis
      by (auto simp: delay_update_field_def deferred_value_def)
  next
    case False
    with assms Some obtain prior where p: "old = Text prior" by (cases old) auto
    from False Some p same show ?thesis
      by (simp add: delay_update_field_def deferred_value_def)
  qed
qed

lemma delay_update_deferred:
  assumes "distinct (map fst kwargs)"
    and "\<forall>kw \<in> set kwargs. skip \<or> fst kw \<notin> {''job_explanation'', ''result_traceback''}
           \<or> (\<forall>a. extra (fst kw) \<noteq> Some (Opaque a))"
  shows "delay_update ops skip kwargs extra
           = Inr (\<lambda>k. case map_of kwargs k of
                         None \<Rightarrow> extra k
                       | Some v \<Rightarrow> Some (deferred_value ops skip k v (extra k)))"
  using assms
proof (induction kwargs arbitrary: extra)
  case Nil
  then show ?case by simp
next
  case (Cons kw rest)
  obtain key val where kw: "kw = (key, val)" by (cases kw)
  let ?extra' = "extra(key \<mapsto> deferred_value ops skip key val (extra key))"
  from Cons.prems(2) kw
  have cond: "skip \<or> key \<notin> {''job_explanation'', ''result_traceback''}
           \<or> (\<forall>a. extra key \<noteq> Some (Opaque a))"
    by auto
  then have step: "delay_update_field ops skip key val extra = Inr ?extra'"
    by (rule delay_update_field_deferred)
  from Cons.prems kw have d: "distinct (map fst rest)" and fresh: "key \<notin> fst ` set rest"
    by simp_all
  have other: "\<And>k. k \<in> fst ` set rest \<Longrightarrow> ?extra' k = extra k"
    using fresh by auto
  have ok: "\<forall>kw' \<in> set rest. skip \<or> fst kw' \<notin> {''job_explanation'', ''result_traceback''}
           \<or> (\<forall>a. ?extra' (fst kw') \<noteq> Some (Opaque a))"
  proof
    fix kw' assume in_rest: "kw' \<in> set rest"
    then have eq: "?extra' (fst kw') = extra (fst kw')" by (intro other) simp
    from Cons.prems(2) in_rest
    have c: "skip \<or> fst kw' \<notin> {''job_explanation'', ''result_traceback''}
           \<or> (\<forall>a. extra (fst kw') \<noteq> Some (Opaque a))"
      by auto
    show "skip \<or> fst kw' \<notin> {''job_explanation'', ''result_traceback''}
           \<or> (\<forall>a. ?extra' (fst kw') \<noteq> Some (Opaque a))"
      unfolding eq by (rule c)
  qed
  have "delay_update ops skip (kw # rest) extra = delay_update ops skip rest ?extra'"
    by (simp add: kw step)
  also have "\<dots> = Inr (\<lambda>k. case map_of rest k of
                         None \<Rightarrow> ?extra' k
                       | Some v \<Rightarrow> Some (deferred_value ops skip k v (?extra' k)))"
    by (rule Cons.IH [OF d ok])
  also have "(\<lambda>k. case map_of rest k of
                         None \<Rightarrow> ?extra' k
                       | Some v \<Rightarrow> Some (deferred_value ops skip k v (?extra' k)))
           = (\<lambda>k. case map_of (kw # rest) k of
                         None \<Rightarrow> extra k
                       | Some v \<Rightarrow> Some (deferred_value ops skip k v (extra k)))"
  proof (rule ext)
    fix k
    show "(case map_of rest k of
                         None \<Rightarrow> ?extra' k
                       | Some v \<Rightarrow> Some (deferred_value ops skip k v (?extra' k)))
           = (case map_of (kw # rest) k of
                         None \<Rightarrow> extra k
                       | Some v \<Rightarrow> Some (deferred_value ops skip k v (extra k)))"
    proof (cases "k = key")
      case True
      with fresh have "map_of rest k = None" by (simp add: map_of_eq_None_iff)
      with True kw show ?thesis by simp
    next
      case False
      with kw show ?thesis by (simp split: option.splits)
    qed
  qed
  finally show ?case .
qed


lemma stage_messages_recorded:
  assumes "key \<in> {''job_explanation'', ''result_traceback''}" and "extra key = Some (Text t0)"
  shows "\<exists>t extra'. stage_messages ops key msgs extra = Inr extra' \<and> extra' key = Some (Text t)
            \<and> sublist t0 t \<and> (\<forall>m \<in> set msgs. sublist m t)"
  using assms(2)
proof (induction msgs arbitrary: extra t0)
  case Nil
  then show ?case by simp
next
  case (Cons m rest)
  define t1 where "t1 = (if sublist m t0 then t0 else join_newline t0 m)"
  define extra1 where "extra1 = extra(key \<mapsto> Text t1)"
  have step: "delay_update ops False [(key, Text m)] extra = Inr extra1"
    using assms(1) Cons.prems
    by (auto simp: delay_update_single delay_update_field_def extra1_def t1_def fun_upd_idem_iff)
  have k1: "extra1 key = Some (Text t1)" by (simp add: extra1_def)
  have s0: "sublist t0 t1" by (simp add: t1_def join_newline_def)
  have "sublist m ((t0 @ [CHR 0x0A]) @ m)" by (rule sublist_append_leftI)
  then have sm: "sublist m t1" by (simp add: t1_def join_newline_def)
  from Cons.IH [of extra1 t1, OF k1] obtain t extra' where
    r: "stage_messages ops key rest extra1 = Inr extra'" and k: "extra' key = Some (Text t)"
    and s1: "sublist t1 t" and all: "\<forall>m' \<in> set rest. sublist m' t"
    by blast
  from s0 s1 have "sublist t0 t" by (rule sublist_order.order.trans)
  moreover from sm s1 have "sublist m t" by (rule sublist_order.order.trans)
  moreover have "stage_messages ops key (m # rest) extra = Inr extra'"
    by (simp add: step r del: delay_update.simps)
  ultimately show ?case using k all by auto
qed

lemma restage_unchanged:
  assumes "key \<in> {''job_explanation'', ''result_traceback''}" and "extra key = Some (Text t)"
    and "sublist m t"
  shows "delay_update ops False [(key, Text m)] extra = Inr extra"
  using assms by (auto simp: delay_update_single delay_update_field_def)

lemma stage_messages_no_duplicates:
  assumes key: "key \<in> {''job_explanation'', ''result_traceback''}" and none: "extra key = None"
  shows "\<exists>t extra'. stage_messages ops key (m # rest) extra = Inr extra'
           \<and> extra' key = Some (Text t)
           \<and> (\<forall>m' \<in> set (m # rest).
                 sublist m' t \<and> delay_update ops False [(key, Text m')] extra' = Inr extra')"
proof -
  define extra1 where "extra1 = extra(key \<mapsto> Text m)"
  have step: "delay_update ops False [(key, Text m)] extra = Inr extra1"
    using none by (simp add: delay_update_single delay_update_field_def extra1_def)
  have k1: "extra1 key = Some (Text m)" by (simp add: extra1_def)
  from stage_messages_recorded
    [where key = key and extra = extra1 and ?t0.0 = m and ops = ops and msgs = rest, OF key k1]
  obtain t extra' where
    r: "stage_messages ops key rest extra1 = Inr extra'" and k: "extra' key = Some (Text t)"
    and s: "sublist m t" and all: "\<forall>m' \<in> set rest. sublist m' t"
    by blast
  have run: "stage_messages ops key (m # rest) extra = Inr extra'"
    by (simp add: step r del: delay_update.simps)
  have "\<forall>m' \<in> set (m # rest).
          sublist m' t \<and> delay_update ops False [(key, Text m')] extra' = Inr extra'"
    using s all restage_unchanged [where extra = extra' and t = t and key = key, OF key k] by auto
  with run k show ?thesis by blast
qed


text \<open>
  Claim C9, as the code has it. \<open>delay_update\<close> handles the keywords of a call one by one,
  each against the value its own field held before the call: a field without a stored
  value takes the new one; with \<open>skip_if_already_set\<close> a stored value is kept; for
  \<open>job_explanation\<close> and \<open>result_traceback\<close> the stored text is left unchanged when the new
  message occurs in it as a substring and else becomes the stored text, a newline and the
  message; for any other field the new value replaces the stored one. On a status
  transition to 'error' the two fields are staged this way, \<open>result_traceback\<close> first, and
  no other field changes. A message staged before occurs in the stored text, so staging it
  again changes nothing: no recorded message is duplicated. The test is for occurrence,
  not for having been recorded: a message that was never staged is dropped as well when it
  occurs inside the stored text.
\<close>

theorem delay_update_merge_append:
  "(distinct (map fst kwargs)
      \<and> (\<forall>kw \<in> set kwargs. skip_if_already_set
              \<or> fst kw \<notin> {''job_explanation'', ''result_traceback''}
              \<or> (\<forall>a. extra (fst kw) \<noteq> Some (Opaque a)))
    \<longrightarrow> delay_update ops skip_if_already_set kwargs extra
        = Inr (\<lambda>k. case map_of kwargs k of
                     None \<Rightarrow> extra k
                   | Some v \<Rightarrow> Some (deferred_value ops skip_if_already_set k v (extra k))))
   \<and> ((\<forall>a. extra ''result_traceback'' \<noteq> Some (Opaque a))
      \<and> (\<forall>a. extra ''job_explanation'' \<noteq> Some (Opaque a))
    \<longrightarrow> status_handler ops
          \<lparr>status = Some ''error'', sd_result_traceback = map_option Text traceback,
           sd_job_explanation = map_option Text explanation\<rparr> extra
        = Inr (extra(''result_traceback'' := staged_text (extra ''result_traceback'') traceback,
                      ''job_explanation'' := staged_text (extra ''job_explanation'') explanation)))
   \<and> (key \<in> {''job_explanation'', ''result_traceback''} \<and> extra key = None
    \<longrightarrow> (\<exists>t extra'. stage_messages ops key (message # rest) extra = Inr extra'
           \<and> extra' key = Some (Text t)
           \<and> (\<forall>m \<in> set (message # rest).
                 sublist m t \<and> delay_update ops False [(key, Text m)] extra' = Inr extra')))"
proof (intro conjI impI)
  assume "distinct (map fst kwargs)
      \<and> (\<forall>kw \<in> set kwargs. skip_if_already_set
              \<or> fst kw \<notin> {''job_explanation'', ''result_traceback''}
              \<or> (\<forall>a. extra (fst kw) \<noteq> Some (Opaque a)))"
  then show "delay_update ops skip_if_already_set kwargs extra
        = Inr (\<lambda>k. case map_of kwargs k of
                     None \<Rightarrow> extra k
                   | Some v \<Rightarrow> Some (deferred_value ops skip_if_already_set k v (extra k)))"
    by (intro delay_update_deferred) simp_all
next
  assume a: "(\<forall>a. extra ''result_traceback'' \<noteq> Some (Opaque a))
      \<and> (\<forall>a. extra ''job_explanation'' \<noteq> Some (Opaque a))"
  let ?f1 = "extra(''result_traceback'' := staged_text (extra ''result_traceback'') traceback)"
  have s1: "stage_status_field ops ''result_traceback'' (map_option Text traceback) extra = Inr ?f1"
    using a by (intro stage_status_field_text) simp_all
  have je: "?f1 ''job_explanation'' = extra ''job_explanation''" by simp
  have s2: "stage_status_field ops ''job_explanation'' (map_option Text explanation) ?f1
              = Inr (?f1(''job_explanation'' := staged_text (?f1 ''job_explanation'') explanation))"
    using a by (intro stage_status_field_text) simp_all
  show "status_handler ops
          \<lparr>status = Some ''error'', sd_result_traceback = map_option Text traceback,
           sd_job_explanation = map_option Text explanation\<rparr> extra
        = Inr (extra(''result_traceback'' := staged_text (extra ''result_traceback'') traceback,
                      ''job_explanation'' := staged_text (extra ''job_explanation'') explanation))"
    unfolding status_handler_def by (simp add: s1 s2 del: fun_upd_apply) (simp only: je)
next
  assume "key \<in> {''job_explanation'', ''result_traceback''} \<and> extra key = None"
  then show "\<exists>t extra'. stage_messages ops key (message # rest) extra = Inr extra'
           \<and> extra' key = Some (Text t)
           \<and> (\<forall>m \<in> set (message # rest).
                 sublist m t \<and> delay_update ops False [(key, Text m)] extra' = Inr extra')"
    by (intro stage_messages_no_duplicates) simp_all
qed

lemma sample_sublists:
  "sublist ''boom'' ''boom at line 3''" "\<not> sublist ''late'' ''boom''"
  "\<not> sublist ''late'' ''boom at line 3''"
  by (simp_all add: sublist_code)

theorem delay_update_merge_append_witness:
  "distinct (map fst [(''artifacts'', Opaque ()), (''ansible_version'', Text ''2.15''),
                      (''job_explanation'', Text ''late'')])
   \<and> delay_update sample_ops False
        [(''artifacts'', Opaque ()), (''ansible_version'', Text ''2.15''),
         (''job_explanation'', Text ''late'')]
        (no_fields(''job_explanation'' \<mapsto> Text ''boom'', ''artifacts'' \<mapsto> Text ''old''))
      = Inr (no_fields(''job_explanation'' \<mapsto> Text (''boom'' @ [CHR 0x0A] @ ''late''),
                       ''artifacts'' \<mapsto> Opaque (), ''ansible_version'' \<mapsto> Text ''2.15''))
   \<and> delay_update sample_ops True
        [(''artifacts'', Opaque ()), (''ansible_version'', Text ''2.15'')]
        (no_fields(''artifacts'' \<mapsto> Text ''old''))
      = Inr (no_fields(''artifacts'' \<mapsto> Text ''old'', ''ansible_version'' \<mapsto> Text ''2.15''))
   \<and> status_handler sample_ops
        \<lparr>status = Some ''error'', sd_result_traceback = Some (Text ''boom''),
         sd_job_explanation = Some (Text ''failed'')\<rparr>
        (no_fields(''result_traceback'' \<mapsto> Text ''boom at line 3''))
      = Inr (no_fields(''result_traceback'' \<mapsto> Text ''boom at line 3'',
                       ''job_explanation'' \<mapsto> Text ''failed''))
   \<and> no_fields ''result_traceback'' = None
   \<and> stage_messages sample_ops ''result_traceback'' [''boom at line 3'', ''late''] no_fields
      = Inr (no_fields(''result_traceback'' \<mapsto> Text (''boom at line 3'' @ [CHR 0x0A] @ ''late'')))
   \<and> delay_update sample_ops False [(''result_traceback'', Text ''late'')]
        (no_fields(''result_traceback'' \<mapsto> Text (''boom at line 3'' @ [CHR 0x0A] @ ''late'')))
      = Inr (no_fields(''result_traceback'' \<mapsto> Text (''boom at line 3'' @ [CHR 0x0A] @ ''late'')))"
proof -
  let ?kw3 = "[(''artifacts'', Opaque ()), (''ansible_version'', Text ''2.15''),
               (''job_explanation'', Text ''late'')]"
  let ?kw2 = "[(''artifacts'', Opaque ()), (''ansible_version'', Text ''2.15'')]"
  let ?e3 = "no_fields(''job_explanation'' \<mapsto> Text ''boom'', ''artifacts'' \<mapsto> Text ''old'')"
  let ?e2 = "no_fields(''artifacts'' \<mapsto> Text ''old'')"
  let ?staged = "no_fields(''result_traceback'' \<mapsto> Text (''boom at line 3'' @ [CHR 0x0A] @ ''late''))"
  have d3: "distinct (map fst ?kw3)" by simp
  have d2: "distinct (map fst ?kw2)" by simp
  have ok3: "\<forall>kw \<in> set ?kw3. False \<or> fst kw \<notin> {''job_explanation'', ''result_traceback''}
               \<or> (\<forall>a. ?e3 (fst kw) \<noteq> Some (Opaque a))"
    by simp
  have ok2: "\<forall>kw \<in> set ?kw2. True \<or> fst kw \<notin> {''job_explanation'', ''result_traceback''}
               \<or> (\<forall>a. ?e2 (fst kw) \<noteq> Some (Opaque a))"
    by simp
  note t = delay_update_merge_append
  have a: "delay_update sample_ops False ?kw3 ?e3
      = Inr (no_fields(''job_explanation'' \<mapsto> Text (''boom'' @ [CHR 0x0A] @ ''late''),
                       ''artifacts'' \<mapsto> Opaque (), ''ansible_version'' \<mapsto> Text ''2.15''))"
    using t [where kwargs = ?kw3 and skip_if_already_set = False and extra = ?e3
               and ops = sample_ops, THEN conjunct1, THEN mp, OF conjI [OF d3 ok3]]
      sample_sublists
    by (auto simp: fun_eq_iff deferred_value_def no_fields_def join_newline_def)
  have b: "delay_update sample_ops True ?kw2 ?e2
      = Inr (no_fields(''artifacts'' \<mapsto> Text ''old'', ''ansible_version'' \<mapsto> Text ''2.15''))"
    using t [where kwargs = ?kw2 and skip_if_already_set = True and extra = ?e2
               and ops = sample_ops, THEN conjunct1, THEN mp, OF conjI [OF d2 ok2]]
    by (auto simp: fun_eq_iff deferred_value_def no_fields_def)
  have c: "status_handler sample_ops
        \<lparr>status = Some ''error'', sd_result_traceback = Some (Text ''boom''),
         sd_job_explanation = Some (Text ''failed'')\<rparr>
        (no_fields(''result_traceback'' \<mapsto> Text ''boom at line 3''))
      = Inr (no_fields(''result_traceback'' \<mapsto> Text ''boom at line 3'',
                       ''job_explanation'' \<mapsto> Text ''failed''))"
    using t [where ops = sample_ops
               and extra = "no_fields(''result_traceback'' \<mapsto> Text ''boom at line 3'')"
               and traceback = "Some ''boom''" and explanation = "Some ''failed''",
             THEN conjunct2, THEN conjunct1]
      sample_sublists
    by (simp add: staged_text_def merge_append_def no_fields_def)
  have n: "no_fields ''result_traceback'' = None" by (simp add: no_fields_def)
  have run: "stage_messages sample_ops ''result_traceback'' [''boom at line 3'', ''late''] no_fields
      = Inr ?staged"
    using sample_sublists
    by (simp add: delay_update_field_def no_fields_def join_newline_def)
  from t [where ops = sample_ops and key = "''result_traceback''" and extra = no_fields
            and message = "''boom at line 3''" and rest = "[''late'']",
          THEN conjunct2, THEN conjunct2, THEN mp] n
  obtain t' extra' where
    r: "stage_messages sample_ops ''result_traceback'' [''boom at line 3'', ''late''] no_fields
          = Inr extra'"
    and again: "\<forall>m \<in> set [''boom at line 3'', ''late''].
          sublist m t' \<and> delay_update sample_ops False [(''result_traceback'', Text m)] extra'
            = Inr extra'"
    by auto
  from r run have "extra' = ?staged" by simp
  with again have e: "delay_update sample_ops False [(''result_traceback'', Text ''late'')] ?staged
      = Inr ?staged" by simp
  from d3 a b c n run e show ?thesis by (intro conjI)
qed

text \<open>
  Claim C9 as stated fails: the message 'boom' was never recorded, only 'boom at line 3'
  was, yet staging it leaves the field unchanged because it occurs in the stored text; with
  the messages kept as the claim words it, the field would hold both.
\<close>

theorem unrecorded_message_dropped_counterexample:
  "''boom'' \<notin> set (record_message [] ''boom at line 3'')
   \<and> stage_messages sample_ops ''job_explanation'' [''boom at line 3'', ''boom''] no_fields
      = Inr (no_fields(''job_explanation'' \<mapsto> Text ''boom at line 3''))
   \<and> join_messages (record_message (record_message [] ''boom at line 3'') ''boom'')
      = ''boom at line 3'' @ [CHR 0x0A] @ ''boom''"
  using sample_sublists(1)
  by (simp add: record_message_def delay_update_field_def no_fields_def join_newline_def)


section \<open>Properties of the membership policies\<close>




lemma set_sorted_by_len [simp]: "set (sorted_by_len store) = {..<length store}"
  by (auto simp: sorted_by_len_def)


lemma minimum_loop_instances:
  assumes "distinct (map (\<lambda>i. inst_id (objs ! i)) order)"
  shows "fst (minimum_loop objs excl ig order (instances, groups)) =
           instances @
           take (nat (policy_instance_minimum ig - int (length instances)))
             (map (\<lambda>i. inst_id (objs ! i))
                (filter (\<lambda>i. node_type (objs ! i) \<noteq> excl \<and> inst_id (objs ! i) \<notin> set instances) order))"
  using assms
proof (induction order arbitrary: instances groups)
  case Nil
  then show ?case by simp
next
  case (Cons i rest)
  from Cons.prems have d: "distinct (map (\<lambda>i. inst_id (objs ! i)) rest)"
    by simp
  from Cons.prems have notin: "inst_id (objs ! i) \<notin> (\<lambda>k. inst_id (objs ! k)) ` set rest"
    by simp
  have fresh: "\<forall>k \<in> set rest. inst_id (objs ! k) \<noteq> inst_id (objs ! i)"
  proof (intro ballI notI)
    fix k assume k: "k \<in> set rest" and eq: "inst_id (objs ! k) = inst_id (objs ! i)"
    from k have "inst_id (objs ! k) \<in> (\<lambda>k. inst_id (objs ! k)) ` set rest" by (rule imageI)
    with eq notin show False by simp
  qed
  note IH = Cons.IH [OF d]
  show ?case
  proof (cases "node_type (objs ! i) = excl")
    case True
    then show ?thesis by (simp add: IH)
  next
    case ne: False
    show ?thesis
    proof (cases "int (length instances) \<ge> policy_instance_minimum ig")
      case True
      with ne show ?thesis by simp
    next
      case short: False
      show ?thesis
      proof (cases "inst_id (objs ! i) \<in> set instances")
        case True
        with ne short show ?thesis by (simp add: IH)
      next
        case False
        have same: "filter (\<lambda>k. node_type (objs ! k) \<noteq> excl
                        \<and> inst_id (objs ! k) \<notin> set (instances @ [inst_id (objs ! i)])) rest
                  = filter (\<lambda>k. node_type (objs ! k) \<noteq> excl \<and> inst_id (objs ! k) \<notin> set instances) rest"
          using fresh by (intro filter_cong) auto
        from short obtain k where k: "nat (policy_instance_minimum ig - int (length instances)) = Suc k"
          by (cases "nat (policy_instance_minimum ig - int (length instances))") auto
        then have k': "nat (policy_instance_minimum ig - int (length (instances @ [inst_id (objs ! i)]))) = k"
          by simp
        from ne short False show ?thesis
          by (simp add: IH same [simplified] k k' del: length_append)
      qed
    qed
  qed
qed





lemma policy_list_pass_ids: "set (policy_list_pass m hs) \<subseteq> inst_id ` ran m"
  by (induction hs) (auto simp: ran_def split: option.splits)

lemma ran_instance_hostnames_map: "ran (instance_hostnames_map insts) \<subseteq> set insts"
  by (auto simp: instance_hostnames_map_def ran_def dest!: map_of_SomeD)

lemma minimum_loop_within:
  assumes "set order \<subseteq> {..<length objs}"
  shows "set (fst (minimum_loop objs excl ig order (instances, groups)))
           \<subseteq> set instances \<union> inst_id ` set objs
         \<and> length (snd (minimum_loop objs excl ig order (instances, groups))) = length groups"
  using assms
proof (induction order arbitrary: instances groups)
  case Nil
  then show ?case by simp
next
  case (Cons i rest)
  then have i: "objs ! i \<in> set objs" and rest: "set rest \<subseteq> {..<length objs}" by auto
  from Cons.IH [OF rest, of instances groups]
    Cons.IH [OF rest, of "instances @ [inst_id (objs ! i)]" "groups[i := groups ! i @ [group_id ig]]"]
    i
  show ?case by auto
qed

lemma percentage_loop_within:
  assumes "set order \<subseteq> {..<length objs}"
  shows "set (fst (percentage_loop objs excl ig ct order (instances, groups)))
           \<subseteq> set instances \<union> inst_id ` set objs
         \<and> length (snd (percentage_loop objs excl ig ct order (instances, groups))) = length groups"
  using assms
proof (induction order arbitrary: instances groups)
  case Nil
  then show ?case by simp
next
  case (Cons i rest)
  then have i: "objs ! i \<in> set objs" and rest: "set rest \<subseteq> {..<length objs}" by auto
  from Cons.IH [OF rest, of instances groups]
    Cons.IH [OF rest, of "instances @ [inst_id (objs ! i)]" "groups[i := groups ! i @ [group_id ig]]"]
    i
  show ?case by auto
qed

lemma within_update:
  assumes "store_within S n k (store, groups)" and "j < n" and "set m \<subseteq> S" and "length groups' = k"
  shows "store_within S n k (store[j := m], groups')"
  using assms by (auto simp: store_within_def dest!: set_update_subset_insert [THEN subsetD])

lemma minimum_step_within:
  assumes w: "store_within S n (length objs) st" and j: "j < n" and S: "inst_id ` set objs \<subseteq> S"
  shows "store_within S n (length objs) (minimum_step cpq objs all_groups j st)"
proof -
  obtain store groups where st: "st = (store, groups)" by (cases st)
  from w st have len: "length groups = length objs" and ln: "length store = n"
    and sub: "set (store ! j) \<subseteq> S"
    using j by (auto simp: store_within_def)
  obtain m groups' where r: "minimum_loop objs (exclude_type cpq (all_groups ! j)) (all_groups ! j)
      (sorted_by_len groups) (store ! j, groups) = (m, groups')"
    by (cases "minimum_loop objs (exclude_type cpq (all_groups ! j)) (all_groups ! j)
      (sorted_by_len groups) (store ! j, groups)")
  have ord: "set (sorted_by_len groups) \<subseteq> {..<length objs}" using len by simp
  from minimum_loop_within [OF ord, of "exclude_type cpq (all_groups ! j)" "all_groups ! j"
      "store ! j" groups] r
  have m: "set m \<subseteq> set (store ! j) \<union> inst_id ` set objs" and g: "length groups' = length groups"
    by simp_all
  from m sub S have "set m \<subseteq> S" by blast
  moreover from g len have "length groups' = length objs" by simp
  ultimately have "set m \<subseteq> S" "length groups' = length objs" .
  with within_update [OF w [unfolded st] j] show ?thesis
    by (simp add: minimum_step_def st r)
qed

lemma percentage_step_within:
  assumes w: "store_within S n (length objs) st" and j: "j < n" and S: "inst_id ` set objs \<subseteq> S"
  shows "store_within S n (length objs) (percentage_step cpq objs all_groups j st)"
proof -
  obtain store groups where st: "st = (store, groups)" by (cases st)
  from w st have len: "length groups = length objs" and ln: "length store = n"
    and sub: "set (store ! j) \<subseteq> S"
    using j by (auto simp: store_within_def)
  define excl where "excl = exclude_type cpq (all_groups ! j)"
  define ct where "ct = length (filter (\<lambda>i. node_type i \<noteq> excl) objs)"
  obtain m groups' where r: "percentage_loop objs excl (all_groups ! j) ct
      (sorted_by_len groups) (store ! j, groups) = (m, groups')"
    by (cases "percentage_loop objs excl (all_groups ! j) ct
      (sorted_by_len groups) (store ! j, groups)")
  have ord: "set (sorted_by_len groups) \<subseteq> {..<length objs}" using len by simp
  from percentage_loop_within [OF ord, of excl "all_groups ! j" ct "store ! j" groups] r
  have m: "set m \<subseteq> set (store ! j) \<union> inst_id ` set objs" and g: "length groups' = length groups"
    by simp_all
  from m sub S have "set m \<subseteq> S" by blast
  moreover from g len have "length groups' = length objs" by simp
  ultimately have "set m \<subseteq> S" "length groups' = length objs" .
  with within_update [OF w [unfolded st] j] w show ?thesis
    by (simp add: percentage_step_def st r Let_def excl_def [symmetric] ct_def [symmetric])
qed

lemma minimum_pass_within:
  assumes "store_within S n (length objs) st" and "inst_id ` set objs \<subseteq> S"
  shows "store_within S n (length objs) (minimum_pass cpq objs all_groups st)"
  unfolding minimum_pass_def
proof (rule fold_invariant [where Q = "\<lambda>j. j < n"])
  fix j assume "j \<in> set (sorted_by_len (fst st))"
  with assms(1) show "j < n" by (simp add: store_within_def)
next
  show "store_within S n (length objs) st" by (rule assms(1))
next
  fix j st' assume "j < n" "store_within S n (length objs) st'"
  then show "store_within S n (length objs) (minimum_step cpq objs all_groups j st')"
    using assms(2) by (intro minimum_step_within)
qed

lemma percentage_pass_within:
  assumes "store_within S n (length objs) st" and "inst_id ` set objs \<subseteq> S"
  shows "store_within S n (length objs) (percentage_pass cpq objs all_groups st)"
  unfolding percentage_pass_def
proof (rule fold_invariant [where Q = "\<lambda>j. j < n"])
  fix j assume "j \<in> set (sorted_by_len (fst st))"
  with assms(1) show "j < n" by (simp add: store_within_def)
next
  show "store_within S n (length objs) st" by (rule assms(1))
next
  fix j st' assume "j < n" "store_within S n (length objs) st'"
  then show "store_within S n (length objs) (percentage_step cpq objs all_groups j st')"
    using assms(2) by (intro percentage_step_within)
qed

lemma computed_instances_within:
  "length (computed_instances cpq c) = length (cl_groups c)
   \<and> (\<forall>m \<in> set (computed_instances cpq c). set m \<subseteq> inst_id ` set (all_instances c))"
proof -
  define S where "S = inst_id ` set (all_instances c)"
  define objs where "objs = filter managed_by_policy (all_instances c)"
  define store where "store = map (\<lambda>ig. policy_list_pass (instance_hostnames_map (all_instances c))
      (policy_instance_list ig)) (cl_groups c)"
  have objs: "inst_id ` set objs \<subseteq> S" by (auto simp: objs_def S_def)
  have "\<forall>m \<in> set store. set m \<subseteq> S"
    using policy_list_pass_ids [of "instance_hostnames_map (all_instances c)"]
      ran_instance_hostnames_map [of "all_instances c"]
    by (fastforce simp: store_def S_def)
  then have "store_within S (length (cl_groups c)) (length objs) (store, replicate (length objs) [])"
    by (simp add: store_within_def store_def)
  then have "store_within S (length (cl_groups c)) (length objs)
      (percentage_pass cpq objs (cl_groups c)
         (minimum_pass cpq objs (cl_groups c) (store, replicate (length objs) [])))"
    using objs by (intro percentage_pass_within minimum_pass_within)
  then show ?thesis
    by (simp add: store_within_def computed_instances_def Let_def S_def objs_def store_def)
qed

lemma computed_instances_hop_free:
  assumes "distinct (map inst_id (cl_instances c))" and "m \<in> set (computed_instances cpq c)"
  shows "hop_free c (set m)"
  unfolding hop_free_def
proof (intro ballI impI)
  fix inst assume inst: "inst \<in> set (cl_instances c)" and mem: "inst_id inst \<in> set m"
  from computed_instances_within [of cpq c] assms(2) mem
  obtain inst' where i': "inst' \<in> set (all_instances c)" and eq: "inst_id inst' = inst_id inst"
    by fastforce
  from i' have in': "inst' \<in> set (cl_instances c)" and nh: "node_type inst' \<noteq> Hop"
    by (auto simp: all_instances_def)
  from assms(1) have "inj_on inst_id (set (cl_instances c))" by (simp add: distinct_map)
  with inst in' eq have "inst' = inst" by (auto dest: inj_onD)
  with nh show "node_type inst \<noteq> Hop" by simp
qed

lemma apply_group_elsewhere:
  assumes "g \<noteq> group_id (fst x) \<or> is_container_group (fst x)"
  shows "apply_group c x m g = m g"
  using assms by (cases x) (auto simp: apply_group_def Let_def)

lemma fold_apply_group_untouched:
  assumes "\<forall>x \<in> set z. group_id (fst x) = g \<longrightarrow> is_container_group (fst x)"
  shows "fold (apply_group c) z m g = m g"
  using assms
proof (induction z arbitrary: m)
  case Nil
  then show ?case by simp
next
  case (Cons x z)
  then have "fold (apply_group c) z (apply_group c x m) g = apply_group c x m g" by simp
  also have "\<dots> = m g" using Cons.prems by (intro apply_group_elsewhere) auto
  finally show ?case by simp
qed

lemma fold_apply_group_at:
  assumes "distinct (map (\<lambda>x. group_id (fst x)) z)" and "(ig, d) \<in> set z"
    and "\<not> is_container_group ig"
  shows "fold (apply_group c) z m (group_id ig) =
           (m (group_id ig) \<union> (set d - cl_membership c (group_id ig)))
             - (cl_membership c (group_id ig) - set d)"
  using assms(1,2)
proof (induction z arbitrary: m)
  case Nil
  then show ?case by simp
next
  case (Cons x z)
  show ?case
  proof (cases "x = (ig, d)")
    case True
    from Cons.prems(1) True have "\<forall>y \<in> set z. group_id (fst y) \<noteq> group_id ig" by force
    then have untouched: "fold (apply_group c) z (apply_group c x m) (group_id ig)
                 = apply_group c x m (group_id ig)"
      by (intro fold_apply_group_untouched) auto
    have "fold (apply_group c) (x # z) m (group_id ig)
            = fold (apply_group c) z (apply_group c x m) (group_id ig)"
      by simp
    also note untouched
    also have "apply_group c x m (group_id ig) =
           (m (group_id ig) \<union> (set d - cl_membership c (group_id ig)))
             - (cl_membership c (group_id ig) - set d)"
      using True assms(3) by (simp add: apply_group_def Let_def)
    finally show ?thesis .
  next
    case False
    with Cons.prems have in_z: "(ig, d) \<in> set z" and dz: "distinct (map (\<lambda>x. group_id (fst x)) z)"
      by auto
    from Cons.prems(1) have notin: "group_id (fst x) \<notin> (\<lambda>x. group_id (fst x)) ` set z"
      by simp
    have "group_id ig \<noteq> group_id (fst x)"
    proof
      assume eq: "group_id ig = group_id (fst x)"
      from in_z have "group_id ig \<in> (\<lambda>x. group_id (fst x)) ` set z"
        by (rule rev_image_eqI) simp
      with eq notin show False by simp
    qed
    then have "apply_group c x m (group_id ig) = m (group_id ig)"
      by (intro apply_group_elsewhere) simp
    with Cons.IH [OF dz in_z, of "apply_group c x m"] show ?thesis by simp
  qed
qed

lemma fold_apply_group_fixed:
  assumes "\<forall>x \<in> set z. \<not> is_container_group (fst x) \<longrightarrow>
             cl_membership c (group_id (fst x)) = set (snd x) \<and> m (group_id (fst x)) = set (snd x)"
  shows "fold (apply_group c) z m = m"
  using assms
proof (induction z)
  case Nil
  then show ?case by simp
next
  case (Cons x z)
  have "apply_group c x m = m"
  proof (cases "is_container_group (fst x)")
    case True
    then show ?thesis by (cases x) (simp add: apply_group_def)
  next
    case False
    with Cons.prems have "cl_membership c (group_id (fst x)) = set (snd x)"
      "m (group_id (fst x)) = set (snd x)" by auto
    with False show ?thesis by (cases x) (auto simp: apply_group_def Let_def fun_upd_idem_iff)
  qed
  with Cons show ?case by simp
qed

lemma needs_change_iff:
  "needs_change c computed \<longleftrightarrow>
     (\<exists>x \<in> set (zip (cl_groups c) computed). set (snd x) \<noteq> cl_membership c (group_id (fst x)))"
  by (simp add: needs_change_def list_ex_iff case_prod_beta)

lemma computed_instances_membership [simp]:
  "computed_instances cpq (c\<lparr>cl_membership := m\<rparr>) = computed_instances cpq c"
  by (simp add: computed_instances_def all_instances_def)

lemma zip_groups_distinct:
  assumes "distinct (map group_id (cl_groups c))"
  shows "distinct (map (\<lambda>x. group_id (fst x)) (zip (cl_groups c) (computed_instances cpq c)))"
proof -
  have "map (\<lambda>x. group_id (fst x)) (zip (cl_groups c) (computed_instances cpq c))
          = map group_id (map fst (zip (cl_groups c) (computed_instances cpq c)))"
    by simp
  also have "\<dots> = map group_id (cl_groups c)"
    using computed_instances_within [of cpq c] by (simp del: map_map)
  finally show ?thesis using assms by simp
qed

lemma applied_membership_at:
  assumes d: "distinct (map group_id (cl_groups c))"
    and x: "x \<in> set (zip (cl_groups c) (computed_instances cpq c))"
  shows "fold (apply_group c) (zip (cl_groups c) (computed_instances cpq c)) (cl_membership c)
           (group_id (fst x))
         = (if is_container_group (fst x) then cl_membership c (group_id (fst x)) else set (snd x))"
proof (cases "is_container_group (fst x)")
  case True
  have "\<forall>y \<in> set (zip (cl_groups c) (computed_instances cpq c)).
          group_id (fst y) = group_id (fst x) \<longrightarrow> is_container_group (fst y)"
  proof (intro ballI impI)
    fix y assume y: "y \<in> set (zip (cl_groups c) (computed_instances cpq c))"
      and eq: "group_id (fst y) = group_id (fst x)"
    have "fst x \<in> set (cl_groups c)"
      using x set_zip_leftD [of "fst x" "snd x" "cl_groups c" "computed_instances cpq c"] by simp
    moreover have "fst y \<in> set (cl_groups c)"
      using y set_zip_leftD [of "fst y" "snd y" "cl_groups c" "computed_instances cpq c"] by simp
    moreover from d have "inj_on group_id (set (cl_groups c))" by (simp add: distinct_map)
    ultimately have "fst y = fst x" using eq by (auto dest: inj_onD)
    with True show "is_container_group (fst y)" by simp
  qed
  then show ?thesis using True by (simp add: fold_apply_group_untouched)
next
  case False
  obtain ig m where xm: "x = (ig, m)" by (cases x)
  from fold_apply_group_at [OF zip_groups_distinct [OF d] x [unfolded xm], of c "cl_membership c"] False xm
  show ?thesis by auto
qed

lemma apply_unchanged_instances [simp]:
  "cl_instances (snd (apply_cluster_membership_policies cpq c)) = cl_instances c"
  "cl_groups (snd (apply_cluster_membership_policies cpq c)) = cl_groups c"
  by (simp_all add: apply_cluster_membership_policies_def Let_def)

lemma applied_membership:
  assumes d: "distinct (map group_id (cl_groups c))"
    and x: "x \<in> set (zip (cl_groups c) (computed_instances cpq c))"
    and nc: "\<not> is_container_group (fst x)"
  shows "cl_membership (snd (apply_cluster_membership_policies cpq c)) (group_id (fst x)) = set (snd x)"
proof (cases "needs_change c (computed_instances cpq c)")
  case True
  with applied_membership_at [OF d x] nc show ?thesis
    by (simp add: apply_cluster_membership_policies_def Let_def)
next
  case False
  with x have "set (snd x) = cl_membership c (group_id (fst x))"
    by (simp add: needs_change_iff)
  with False show ?thesis by (simp add: apply_cluster_membership_policies_def Let_def)
qed

lemma group_in_zip:
  assumes "ig \<in> set (cl_groups c)"
  shows "\<exists>m. (ig, m) \<in> set (zip (cl_groups c) (computed_instances cpq c))
             \<and> m \<in> set (computed_instances cpq c)"
proof -
  from assms obtain j where j: "j < length (cl_groups c)" and ig: "cl_groups c ! j = ig"
    by (auto simp: in_set_conv_nth)
  from computed_instances_within [of cpq c]
  have len: "length (computed_instances cpq c) = length (cl_groups c)" by simp
  with j ig have "(ig, computed_instances cpq c ! j) \<in> set (zip (cl_groups c) (computed_instances cpq c))"
    by (auto simp: in_set_zip)
  moreover from j len have "computed_instances cpq c ! j \<in> set (computed_instances cpq c)" by simp
  ultimately show ?thesis by blast
qed

text \<open>
  Claim C4, as the code has it. With instance and group ids unique (they are primary keys),
  no list of instances computed for a group holds the id of a hop node, and after the run
  the membership of every group that is not a container group holds none: a hop node that
  was a member of such a group before is removed. Container groups are skipped when the
  difference is applied, so a hop node stays a member there.
\<close>

theorem hop_nodes_excluded:
  assumes "distinct (map inst_id (cl_instances c))" and "distinct (map group_id (cl_groups c))"
  shows "(\<forall>m \<in> set (computed_instances cpq c). hop_free c (set m))
    \<and> (\<forall>ig \<in> set (cl_groups c). \<not> is_container_group ig \<longrightarrow>
          hop_free c (cl_membership (snd (apply_cluster_membership_policies cpq c)) (group_id ig)))"
proof (intro conjI ballI impI)
  fix m assume "m \<in> set (computed_instances cpq c)"
  with assms(1) show "hop_free c (set m)" by (rule computed_instances_hop_free)
next
  fix ig assume ig: "ig \<in> set (cl_groups c)" and nc: "\<not> is_container_group ig"
  from group_in_zip [OF ig, of cpq] obtain m
    where z: "(ig, m) \<in> set (zip (cl_groups c) (computed_instances cpq c))"
      and m: "m \<in> set (computed_instances cpq c)" by blast
  from applied_membership [OF assms(2) z] nc
  have "cl_membership (snd (apply_cluster_membership_policies cpq c)) (group_id ig) = set m" by simp
  with computed_instances_hop_free [OF assms(1) m]
  show "hop_free c (cl_membership (snd (apply_cluster_membership_policies cpq c)) (group_id ig))"
    by simp
qed

lemma hop_cluster_run:
  "computed_instances ''controlplane'' hop_cluster = [[1]]"
  "cl_membership (snd (apply_cluster_membership_policies ''controlplane'' hop_cluster)) 10 = {1}"
  by (simp_all add: apply_cluster_membership_policies_def needs_change_def apply_group_def
      computed_instances_def hop_cluster_def all_instances_def node_def
      sample_group_def instance_hostnames_map_def minimum_pass_def percentage_pass_def
      minimum_step_def percentage_step_def sorted_by_len_def exclude_type_def)

theorem hop_nodes_excluded_witness:
  "distinct (map inst_id (cl_instances hop_cluster))
   \<and> distinct (map group_id (cl_groups hop_cluster))
   \<and> node_type (node 4 ''h'' Hop) = Hop
   \<and> 4 \<in> cl_membership hop_cluster 10
   \<and> 4 \<notin> cl_membership (snd (apply_cluster_membership_policies ''controlplane'' hop_cluster)) 10"
proof -
  let ?ig = "(sample_group 10 ''default'' 1 False)\<lparr>policy_instance_list := [''h'']\<rparr>"
  have a: "distinct (map inst_id (cl_instances hop_cluster))"
    by (simp add: hop_cluster_def node_def)
  have b: "distinct (map group_id (cl_groups hop_cluster))"
    by (simp add: hop_cluster_def sample_group_def)
  have c: "4 \<in> cl_membership hop_cluster 10" by (simp add: hop_cluster_def)
  have t: "node_type (node 4 ''h'' Hop) = Hop" by (simp add: node_def)
  have ig: "?ig \<in> set (cl_groups hop_cluster)" "\<not> is_container_group ?ig" "group_id ?ig = 10"
    by (simp_all add: hop_cluster_def sample_group_def)
  have inst: "node 4 ''h'' Hop \<in> set (cl_instances hop_cluster)" "inst_id (node 4 ''h'' Hop) = 4"
    by (simp_all add: hop_cluster_def node_def)
  from hop_nodes_excluded [OF a b, of "''controlplane''"] ig
  have "hop_free hop_cluster
          (cl_membership (snd (apply_cluster_membership_policies ''controlplane'' hop_cluster)) 10)"
    by metis
  with inst t
  have d: "4 \<notin> cl_membership (snd (apply_cluster_membership_policies ''controlplane'' hop_cluster)) 10"
    unfolding hop_free_def by metis
  from a b t c d show ?thesis by (intro conjI)
qed

lemma container_cluster_run:
  "cl_membership (snd (apply_cluster_membership_policies ''controlplane'' container_cluster)) 12 = {4}"
  "fst (apply_cluster_membership_policies ''controlplane'' container_cluster) = Applied"
  by (simp_all add: apply_cluster_membership_policies_def needs_change_def apply_group_def
      computed_instances_def container_cluster_def all_instances_def node_def
      sample_group_def instance_hostnames_map_def minimum_pass_def percentage_pass_def
      minimum_step_def percentage_step_def sorted_by_len_def exclude_type_def)

text \<open>
  Claim C4 as stated fails for a container group: the hop node 4 is a member of the
  container group 12 before the run and still is after it.
\<close>

theorem hop_node_kept_counterexample:
  "\<not> hop_free container_cluster
        (cl_membership (snd (apply_cluster_membership_policies ''controlplane'' container_cluster)) 12)"
  by (simp add: container_cluster_run(1)) (simp add: hop_free_def container_cluster_def node_def)

lemma second_run_membership:
  assumes d: "distinct (map group_id (cl_groups c))"
  shows "snd (apply_cluster_membership_policies cpq (snd (apply_cluster_membership_policies cpq c)))
           = snd (apply_cluster_membership_policies cpq c)"
proof -
  define c1 where "c1 = snd (apply_cluster_membership_policies cpq c)"
  have groups: "cl_groups c1 = cl_groups c" by (simp add: c1_def)
  have comp: "computed_instances cpq c1 = computed_instances cpq c"
    by (simp add: c1_def apply_cluster_membership_policies_def Let_def)
  have fixed: "fold (apply_group c1) (zip (cl_groups c1) (computed_instances cpq c1)) (cl_membership c1)
                 = cl_membership c1"
  proof (rule fold_apply_group_fixed, intro ballI impI)
    fix x assume x: "x \<in> set (zip (cl_groups c1) (computed_instances cpq c1))"
      and nc: "\<not> is_container_group (fst x)"
    from x have "x \<in> set (zip (cl_groups c) (computed_instances cpq c))"
      by (simp add: groups comp)
    from applied_membership [OF d this nc]
    show "cl_membership c1 (group_id (fst x)) = set (snd x)
            \<and> cl_membership c1 (group_id (fst x)) = set (snd x)"
      by (simp add: c1_def)
  qed
  have "snd (apply_cluster_membership_policies cpq c1) = c1"
    by (simp add: apply_cluster_membership_policies_def Let_def fixed)
  then show ?thesis by (simp add: c1_def)
qed

lemma second_run_no_op:
  assumes d: "distinct (map group_id (cl_groups c))"
    and cont: "\<forall>x \<in> set (zip (cl_groups c) (computed_instances cpq c)).
                 is_container_group (fst x) \<longrightarrow> set (snd x) = cl_membership c (group_id (fst x))"
  shows "fst (apply_cluster_membership_policies cpq (snd (apply_cluster_membership_policies cpq c)))
           = No_op"
proof -
  define c1 where "c1 = snd (apply_cluster_membership_policies cpq c)"
  have groups: "cl_groups c1 = cl_groups c" by (simp add: c1_def)
  have comp: "computed_instances cpq c1 = computed_instances cpq c"
    by (simp add: c1_def apply_cluster_membership_policies_def Let_def)
  have "\<not> needs_change c1 (computed_instances cpq c1)"
    unfolding needs_change_iff groups comp
  proof (intro notI, elim bexE)
    fix x assume x: "x \<in> set (zip (cl_groups c) (computed_instances cpq c))"
      and ne: "set (snd x) \<noteq> cl_membership c1 (group_id (fst x))"
    show False
    proof (cases "is_container_group (fst x)")
      case False
      from applied_membership [OF d x False] ne show False by (simp add: c1_def)
    next
      case True
      have "cl_membership c1 (group_id (fst x)) = cl_membership c (group_id (fst x))"
      proof (cases "needs_change c (computed_instances cpq c)")
        case nc: True
        with applied_membership_at [OF d x] True show ?thesis
          by (simp add: c1_def apply_cluster_membership_policies_def Let_def)
      next
        case False
        then show ?thesis by (simp add: c1_def apply_cluster_membership_policies_def Let_def)
      qed
      with cont x True ne show False by simp
    qed
  qed
  then have "fst (apply_cluster_membership_policies cpq c1) = No_op"
    by (simp add: apply_cluster_membership_policies_def Let_def)
  then show ?thesis by (simp add: c1_def)
qed

text \<open>
  Claim C3, as the code has it. The computation is a function of the instances and the
  groups; with group ids unique, a second run on what the first run left computes the same
  lists and changes no membership (no addition, no removal). It also ends at the no-op
  return, provided that the computed list of every container group equals the membership
  the group had: container groups are compared like the others before the no-op return
  but skipped when the difference is applied, so a difference there is found by every run.
\<close>

theorem membership_policies_idempotent:
  assumes "distinct (map group_id (cl_groups c))"
  shows "computed_instances cpq (snd (apply_cluster_membership_policies cpq c))
           = computed_instances cpq c
    \<and> snd (apply_cluster_membership_policies cpq (snd (apply_cluster_membership_policies cpq c)))
        = snd (apply_cluster_membership_policies cpq c)
    \<and> ((\<forall>x \<in> set (zip (cl_groups c) (computed_instances cpq c)).
           is_container_group (fst x) \<longrightarrow> set (snd x) = cl_membership c (group_id (fst x)))
       \<longrightarrow> fst (apply_cluster_membership_policies cpq (snd (apply_cluster_membership_policies cpq c)))
            = No_op)"
proof (intro conjI impI)
  show "computed_instances cpq (snd (apply_cluster_membership_policies cpq c))
          = computed_instances cpq c"
    by (simp add: apply_cluster_membership_policies_def Let_def)
next
  show "snd (apply_cluster_membership_policies cpq (snd (apply_cluster_membership_policies cpq c)))
        = snd (apply_cluster_membership_policies cpq c)"
    by (rule second_run_membership [OF assms])
next
  assume "\<forall>x \<in> set (zip (cl_groups c) (computed_instances cpq c)).
           is_container_group (fst x) \<longrightarrow> set (snd x) = cl_membership c (group_id (fst x))"
  with assms
  show "fst (apply_cluster_membership_policies cpq (snd (apply_cluster_membership_policies cpq c)))
            = No_op"
    by (rule second_run_no_op)
qed

lemma settled_cluster_run:
  "computed_instances ''controlplane'' settled_cluster = [[1], []]"
  by (simp add: computed_instances_def settled_cluster_def all_instances_def node_def
      sample_group_def instance_hostnames_map_def minimum_pass_def percentage_pass_def
      minimum_step_def percentage_step_def sorted_by_len_def exclude_type_def)

theorem membership_policies_idempotent_witness:
  "distinct (map group_id (cl_groups settled_cluster))
   \<and> is_container_group (sample_group 12 ''k8s'' 0 True)
   \<and> zip (cl_groups settled_cluster) (computed_instances ''controlplane'' settled_cluster)
       = [(sample_group 10 ''default'' 1 False, [1]), (sample_group 12 ''k8s'' 0 True, [])]
   \<and> set [] = cl_membership settled_cluster (group_id (sample_group 12 ''k8s'' 0 True))
   \<and> fst (apply_cluster_membership_policies ''controlplane'' settled_cluster) = Applied
   \<and> computed_instances ''controlplane''
         (snd (apply_cluster_membership_policies ''controlplane'' settled_cluster))
       = computed_instances ''controlplane'' settled_cluster
   \<and> snd (apply_cluster_membership_policies ''controlplane''
            (snd (apply_cluster_membership_policies ''controlplane'' settled_cluster)))
       = snd (apply_cluster_membership_policies ''controlplane'' settled_cluster)
   \<and> fst (apply_cluster_membership_policies ''controlplane''
            (snd (apply_cluster_membership_policies ''controlplane'' settled_cluster)))
       = No_op"
proof -
  have b: "distinct (map group_id (cl_groups settled_cluster))"
    by (simp add: settled_cluster_def sample_group_def)
  have k: "is_container_group (sample_group 12 ''k8s'' 0 True)"
    by (simp add: sample_group_def)
  have z: "zip (cl_groups settled_cluster) (computed_instances ''controlplane'' settled_cluster)
       = [(sample_group 10 ''default'' 1 False, [1]), (sample_group 12 ''k8s'' 0 True, [])]"
    by (simp add: settled_cluster_run) (simp add: settled_cluster_def)
  have m: "set [] = cl_membership settled_cluster (group_id (sample_group 12 ''k8s'' 0 True))"
    by (simp add: settled_cluster_def sample_group_def)
  have first: "fst (apply_cluster_membership_policies ''controlplane'' settled_cluster) = Applied"
    by (simp add: apply_cluster_membership_policies_def needs_change_def z)
       (simp add: settled_cluster_def sample_group_def)
  have cont: "\<forall>x \<in> set (zip (cl_groups settled_cluster)
                              (computed_instances ''controlplane'' settled_cluster)).
           is_container_group (fst x) \<longrightarrow> set (snd x) = cl_membership settled_cluster (group_id (fst x))"
    unfolding z using m by (simp add: sample_group_def)
  note t = membership_policies_idempotent [OF b, of "''controlplane''"]
  from t have c1: "computed_instances ''controlplane''
         (snd (apply_cluster_membership_policies ''controlplane'' settled_cluster))
       = computed_instances ''controlplane'' settled_cluster" by (rule conjunct1)
  from t have c2: "snd (apply_cluster_membership_policies ''controlplane''
            (snd (apply_cluster_membership_policies ''controlplane'' settled_cluster)))
       = snd (apply_cluster_membership_policies ''controlplane'' settled_cluster)"
    by (rule conjunct2 [THEN conjunct1])
  from t [THEN conjunct2, THEN conjunct2, THEN mp, OF cont]
  have c3: "fst (apply_cluster_membership_policies ''controlplane''
            (snd (apply_cluster_membership_policies ''controlplane'' settled_cluster)))
       = No_op" .
  from b k z m first c1 c2 c3 show ?thesis by (intro conjI)
qed

text \<open>
  Claim C3 as stated fails with a container group whose membership differs from its
  computed list: the second run finds the same difference as the first and goes through
  the transaction again instead of ending at the no-op return.
\<close>

theorem second_run_detects_change_counterexample:
  "fst (apply_cluster_membership_policies ''controlplane''
          (snd (apply_cluster_membership_policies ''controlplane'' container_cluster)))
   = Applied"
proof -
  have comp: "computed_instances ''controlplane'' container_cluster = [[1], []]"
    by (simp add: computed_instances_def container_cluster_def all_instances_def node_def
      sample_group_def instance_hostnames_map_def minimum_pass_def percentage_pass_def
      minimum_step_def percentage_step_def sorted_by_len_def exclude_type_def)
  have groups: "cl_groups container_cluster
      = [sample_group 10 ''default'' 1 False, sample_group 12 ''k8s'' 0 True]"
    by (simp add: container_cluster_def)
  have "needs_change (snd (apply_cluster_membership_policies ''controlplane'' container_cluster))
          (computed_instances ''controlplane'' container_cluster)"
    by (simp add: needs_change_def groups comp container_cluster_run(1) sample_group_def)
  moreover have "computed_instances ''controlplane''
        (snd (apply_cluster_membership_policies ''controlplane'' container_cluster))
      = computed_instances ''controlplane'' container_cluster"
    by (simp add: apply_cluster_membership_policies_def Let_def)
  ultimately show ?thesis
    by (simp add: apply_cluster_membership_policies_def [of _ "snd _"] Let_def)
qed

lemma with_group_nil [simp]: "with_group g [] groups = groups"
  by (simp add: with_group_def map_nth)

lemma length_with_group [simp]: "length (with_group g added groups) = length groups"
  by (simp add: with_group_def)







section \<open>Properties of the locks and of the heartbeat\<close>

text \<open>
  Claim C6, as the code has it. The periodic scheduler takes its lock without waiting: when
  another session holds the lock the cycle is skipped and nothing changes, otherwise the
  scheduler runs. The membership policies take \<open>cluster_policy_lock\<close> with \<open>wait=True\<close>:
  when another session holds the lock the task waits for it and then runs; it is never
  skipped.
\<close>

theorem lock_modes:
  "advisory_lock False held_elsewhere \<noteq> Blocked_until_free
   \<and> awx_periodic_scheduler run_schedules True s = (Skipped, s)
   \<and> awx_periodic_scheduler run_schedules False s = (Ran, run_schedules s)
   \<and> apply_cluster_membership_policies_task cpq True c
       = (Ran_after_waiting, snd (apply_cluster_membership_policies cpq c))
   \<and> apply_cluster_membership_policies_task cpq False c
       = (Ran, snd (apply_cluster_membership_policies cpq c))
   \<and> fst (apply_cluster_membership_policies_task cpq held_elsewhere c) \<noteq> Skipped"
  by (simp add: advisory_lock_def awx_periodic_scheduler_def
      apply_cluster_membership_policies_task_def)

text \<open>
  Claim C6 as stated fails for the membership policies: with the lock held elsewhere the
  task is not skipped, it waits and runs.
\<close>

theorem membership_lock_blocks_counterexample:
  "fst (apply_cluster_membership_policies_task ''controlplane'' True scenario_cluster)
   = Ran_after_waiting"
  by (simp add: advisory_lock_def apply_cluster_membership_policies_task_def)

lemma and_then_simps [simp]:
  "and_then (es, Next) b = (es @ fst b, snd b)"
  "and_then (es, Return) b = (es, Return)"
  "and_then (es, Raise err) b = (es, Raise err)"
  by (simp_all add: and_then_def)

text \<open>
  Claim C7, as the code has it. If this node is found, is lost at the start of the cycle
  and has a capacity other than 0 after its local health check, the heartbeat logs the
  rejoin and returns: after the inspection of the mesh and the health check of this node
  nothing else happens, no instance is reaped, deleted or marked offline. With capacity 0
  after the health check the cycle goes on.
\<close>

theorem heartbeat_rejoin_returns_early:
  assumes "find (\<lambda>inst. hostname inst = cluster_host_id env)
             (filter (\<lambda>inst. node_state inst \<in> {Ready, Unavailable, Installed}) instances)
           = Some this_inst"
    and "is_lost env nowtime this_inst"
    and "capacity (local_health_check env this_inst) \<noteq> 0"
  shows "cluster_node_heartbeat env nowtime instances worker_tasks
           = ([Inspect_execution_and_hop_nodes, Local_health_check (hostname this_inst),
               Log Warning Rejoining_the_cluster (hostname this_inst)], Return)
    \<and> \<not> list_ex touches_other_instance
           (fst (cluster_node_heartbeat env nowtime instances worker_tasks))"
proof -
  have self: "update_self env nowtime (Some this_inst)
      = ([Local_health_check (hostname this_inst),
          Log Warning Rejoining_the_cluster (hostname this_inst)], Return)"
    using assms(2,3) by (simp add: update_self_def Let_def)
  have run: "cluster_node_heartbeat env nowtime instances worker_tasks
           = ([Inspect_execution_and_hop_nodes, Local_health_check (hostname this_inst),
               Log Warning Rejoining_the_cluster (hostname this_inst)], Return)"
    unfolding cluster_node_heartbeat_def Let_def assms(1) self by simp
  then show ?thesis by simp
qed

theorem heartbeat_rejoin_returns_early_witness:
  "find (\<lambda>inst. hostname inst = cluster_host_id sample_env)
     (filter (\<lambda>inst. node_state inst \<in> {Ready, Unavailable, Installed})
        [hb_node 1 ''a'' 100, hb_node 2 ''b'' 100])
     = Some (hb_node 1 ''a'' 100)
   \<and> is_lost sample_env 1000 (hb_node 1 ''a'' 100)
   \<and> is_lost sample_env 1000 (hb_node 2 ''b'' 100)
   \<and> capacity (local_health_check sample_env (hb_node 1 ''a'' 100)) \<noteq> 0
   \<and> cluster_node_heartbeat sample_env 1000 [hb_node 1 ''a'' 100, hb_node 2 ''b'' 100] None
       = ([Inspect_execution_and_hop_nodes, Local_health_check ''a'',
           Log Warning Rejoining_the_cluster ''a''], Return)"
proof -
  have a: "find (\<lambda>inst. hostname inst = cluster_host_id sample_env)
     (filter (\<lambda>inst. node_state inst \<in> {Ready, Unavailable, Installed})
        [hb_node 1 ''a'' 100, hb_node 2 ''b'' 100])
     = Some (hb_node 1 ''a'' 100)"
    by (simp add: sample_env_def hb_node_def)
  have b: "is_lost sample_env 1000 (hb_node 1 ''a'' 100)"
    by (simp add: sample_env_def hb_node_def)
  have b': "is_lost sample_env 1000 (hb_node 2 ''b'' 100)"
    by (simp add: sample_env_def hb_node_def)
  have c: "capacity (local_health_check sample_env (hb_node 1 ''a'' 100)) \<noteq> 0"
    by (simp add: sample_env_def hb_node_def)
  have h: "hostname (hb_node 1 ''a'' 100) = ''a''" by (simp add: hb_node_def)
  from heartbeat_rejoin_returns_early [OF a b c, of None]
  have "cluster_node_heartbeat sample_env 1000 [hb_node 1 ''a'' 100, hb_node 2 ''b'' 100] None
       = ([Inspect_execution_and_hop_nodes, Local_health_check ''a'',
           Log Warning Rejoining_the_cluster ''a''], Return)"
    by (simp only: h)
  with a b b' c show ?thesis by (intro conjI)
qed

lemma sample_cluster_facts:
  "filter (\<lambda>inst. node_state inst \<in> {Ready, Unavailable, Installed})
     [hb_node 1 ''a'' t, hb_node 2 ''b'' u] = [hb_node 1 ''a'' t, hb_node 2 ''b'' u]"
  "hostname (hb_node i h t) = h" "inst_id (hb_node i h t) = i" "node_state (hb_node i h t) = Ready"
  "node_type (hb_node i h t) = Hybrid" "version (hb_node i h t) = ''24.6.1''"
  "last_seen (hb_node i h t) = Some t"
  by (simp_all add: hb_node_def)

text \<open>
  Claim C7 as stated fails when the local health check leaves this node with capacity 0:
  this node was lost at the start of the cycle, yet the cycle goes on, reaps the jobs of
  the lost peer and marks it offline.
\<close>

theorem heartbeat_zero_capacity_counterexample:
  "is_lost zero_capacity_env 1000 (hb_node 1 ''a'' 100)
   \<and> cluster_node_heartbeat zero_capacity_env 1000 [hb_node 1 ''a'' 100, hb_node 2 ''b'' 100] None
       = ([Inspect_execution_and_hop_nodes, Local_health_check ''a'',
           Log Warning Heartbeat_skew ''a'', Reap ''b'', Reap_waiting ''b'',
           Mark_offline ''b'', Log Error Marked_as_lost ''b''], Next)"
  by (simp add: cluster_node_heartbeat_def sample_cluster_facts update_self_def
      zero_capacity_env_def sample_env_def reap_jobs_def deprovision_or_mark_offline_def
      guarded_write_def local_reaper_def)

text \<open>
  Claim C8 on the code. The handler compares the SQL state, a string, with the class
  \<open>psycopg.errors.NoData\<close>, so the branch that logs the benign case at debug level is never
  taken: whatever string the state is, the error is logged with \<open>logger.exception\<close>. A
  \<open>DatabaseError\<close> without a cause (what Django raises when an update affects no rows) is
  logged with \<open>logger.exception\<close> too. With the state 02000 the run below logs the
  exception for the lost peer and goes on to the next one; an error whose \<open>sqlstate\<close> is
  \<open>None\<close> makes \<open>lookup\<close> raise inside the handler and ends the heartbeat.
\<close>

theorem heartbeat_no_data_logged_as_exception:
  "handle_database_error env host (Cause_with_sqlstate (Py_str state))
     = (case lookup env (Py_str state) of
          Inl err \<Rightarrow> ([], Raise err)
        | Inr sqlstate_str \<Rightarrow>
            ([Log Debug Sql_error_state host, Log Exception Error_marking_as_lost host], Next))
   \<and> handle_database_error env host No_cause = ([Log Exception No_sql_state_available host], Next)
   \<and> cluster_node_heartbeat no_data_env 1000
        [hb_node 1 ''a'' 990, hb_node 2 ''b'' 100, hb_node 3 ''c'' 100] None
       = ([Inspect_execution_and_hop_nodes, Local_health_check ''a'',
           Reap ''b'', Reap_waiting ''b'',
           Log Debug Sql_error_state ''b'', Log Exception Error_marking_as_lost ''b'',
           Reap ''c'', Reap_waiting ''c'',
           Log Debug Sql_error_state ''c'', Log Exception Error_marking_as_lost ''c''], Next)
   \<and> cluster_node_heartbeat no_sqlstate_env 1000
        [hb_node 1 ''a'' 990, hb_node 2 ''b'' 100, hb_node 3 ''c'' 100] None
       = ([Inspect_execution_and_hop_nodes, Local_health_check ''a'',
           Reap ''b'', Reap_waiting ''b''], Raise AttributeError)"
proof (intro conjI)
  show "handle_database_error env host (Cause_with_sqlstate (Py_str state))
     = (case lookup env (Py_str state) of
          Inl err \<Rightarrow> ([], Raise err)
        | Inr sqlstate_str \<Rightarrow>
            ([Log Debug Sql_error_state host, Log Exception Error_marking_as_lost host], Next))"
    by (simp add: handle_database_error_def NoData_def split: sum.splits)
  show "handle_database_error env host No_cause = ([Log Exception No_sql_state_available host], Next)"
    by (simp add: handle_database_error_def)
  have three: "filter (\<lambda>inst. node_state inst \<in> {Ready, Unavailable, Installed})
     [hb_node 1 ''a'' 990, hb_node 2 ''b'' 100, hb_node 3 ''c'' 100]
     = [hb_node 1 ''a'' 990, hb_node 2 ''b'' 100, hb_node 3 ''c'' 100]"
    by (simp add: hb_node_def)
  show "cluster_node_heartbeat no_data_env 1000
        [hb_node 1 ''a'' 990, hb_node 2 ''b'' 100, hb_node 3 ''c'' 100] None
       = ([Inspect_execution_and_hop_nodes, Local_health_check ''a'',
           Reap ''b'', Reap_waiting ''b'',
           Log Debug Sql_error_state ''b'', Log Exception Error_marking_as_lost ''b'',
           Reap ''c'', Reap_waiting ''c'',
           Log Debug Sql_error_state ''c'', Log Exception Error_marking_as_lost ''c''], Next)"
    by (simp add: cluster_node_heartbeat_def three sample_cluster_facts update_self_def
      no_data_env_def sample_env_def reap_jobs_def deprovision_or_mark_offline_def
      guarded_write_def handle_database_error_def NoData_def local_reaper_def)
  show "cluster_node_heartbeat no_sqlstate_env 1000
        [hb_node 1 ''a'' 990, hb_node 2 ''b'' 100, hb_node 3 ''c'' 100] None
       = ([Inspect_execution_and_hop_nodes, Local_health_check ''a'',
           Reap ''b'', Reap_waiting ''b''], Raise AttributeError)"
    by (simp add: cluster_node_heartbeat_def three sample_cluster_facts update_self_def
      no_sqlstate_env_def sample_env_def reap_jobs_def deprovision_or_mark_offline_def
      guarded_write_def handle_database_error_def NoData_def local_reaper_def)
qed




end
